theory Spec2Isabelle
  imports Main "HOL-Library.AList"
begin

section \<open>JavaScript values\<close>

text \<open>
  The values that flow through \<^verbatim>\<open>src/lib/issue-bot.js\<close>: the action's inputs and the
  JSON bodies the issue tracker answers with. Numbers are the integers and \<open>NaN\<close>
  (issue, project and milestone numbers and list indices are integers; fractions and
  infinities are left out). Arrays and objects are plain data: an object is its list of
  own enumerable properties in enumeration order.
\<close>

datatype jsval =
    JUndefined
  | JNull
  | JBool bool
  | JNum int
  | JNaN
  | JStr string
  | JArr "jsval list"
  | JObj "(string \<times> jsval) list"

type_synonym obj = "(string \<times> jsval) list"

text \<open>
  What a \<^verbatim>\<open>throw\<close> carries: the description \<^verbatim>\<open>`${error}`\<close> prints. The collaborators
  and the language throw \<^verbatim>\<open>Error\<close> objects, which print; a thrown value that cannot be
  converted to a string (a \<^verbatim>\<open>Symbol\<close>) is not among the exceptions modelled.
\<close>

datatype exn =
    Thrown string
  | TypeError string

fun describe :: "exn \<Rightarrow> string" where
  "describe (Thrown d) = d"
| "describe (TypeError m) = ''TypeError: '' @ m"

text \<open>\<^verbatim>\<open>!!v\<close> and the test of an \<^verbatim>\<open>if\<close>.\<close>

fun truthy :: "jsval \<Rightarrow> bool" where
  "truthy JUndefined = False"
| "truthy JNull = False"
| "truthy (JBool b) = b"
| "truthy (JNum n) = (n \<noteq> 0)"
| "truthy JNaN = False"
| "truthy (JStr s) = (s \<noteq> [])"
| "truthy (JArr xs) = True"
| "truthy (JObj kvs) = True"

fun js_typeof :: "jsval \<Rightarrow> string" where
  "js_typeof JUndefined = ''undefined''"
| "js_typeof JNull = ''object''"
| "js_typeof (JBool b) = ''boolean''"
| "js_typeof (JNum n) = ''number''"
| "js_typeof JNaN = ''number''"
| "js_typeof (JStr s) = ''string''"
| "js_typeof (JArr xs) = ''object''"
| "js_typeof (JObj kvs) = ''object''"

text \<open>
  \<^verbatim>\<open>a === b\<close>. Arrays and objects are compared by identity; the values compared in this
  program come from different places (an input against a freshly parsed response), so two
  of them are never the same object.
\<close>

fun strict_eq :: "jsval \<Rightarrow> jsval \<Rightarrow> bool" where
  "strict_eq JUndefined JUndefined = True"
| "strict_eq JNull JNull = True"
| "strict_eq (JBool a) (JBool b) = (a = b)"
| "strict_eq (JNum a) (JNum b) = (a = b)"
| "strict_eq (JStr a) (JStr b) = (a = b)"
| "strict_eq a b = False"

text \<open>The comparison of \<^verbatim>\<open>Array.prototype.includes\<close>: \<open>NaN\<close> is found.\<close>

definition same_value_zero :: "jsval \<Rightarrow> jsval \<Rightarrow> bool" where
  "same_value_zero a b = (strict_eq a b \<or> (a = JNaN \<and> b = JNaN))"

subsection \<open>Conversion to strings and numbers\<close>

fun nat_digits :: "nat \<Rightarrow> string" where
  "nat_digits n =
     (if n < 10 then [''0123456789'' ! n]
      else nat_digits (n div 10) @ [''0123456789'' ! (n mod 10)])"

declare nat_digits.simps [simp del]

definition int_string :: "int \<Rightarrow> string" where
  "int_string k = (if k < 0 then CHR ''-'' # nat_digits (nat (- k)) else nat_digits (nat k))"

fun join_comma :: "string list \<Rightarrow> string" where
  "join_comma [] = []"
| "join_comma [s] = s"
| "join_comma (s # t # ss) = s @ '','' @ join_comma (t # ss)"

text \<open>\<^verbatim>\<open>String(v)\<close>, which is also what a template literal interpolates.\<close>

fun to_string :: "jsval \<Rightarrow> string" where
  "to_string JUndefined = ''undefined''"
| "to_string JNull = ''null''"
| "to_string (JBool b) = (if b then ''true'' else ''false'')"
| "to_string (JNum n) = int_string n"
| "to_string JNaN = ''NaN''"
| "to_string (JStr s) = s"
| "to_string (JArr xs) =
     join_comma (map (\<lambda>x. if x = JUndefined \<or> x = JNull then [] else to_string x) xs)"
| "to_string (JObj kvs) = ''[object Object]''"

definition is_space :: "char \<Rightarrow> bool" where
  "is_space c = (c \<in> set [CHR '' '', CHR 0x09, CHR 0x0A, CHR 0x0B, CHR 0x0C, CHR 0x0D])"

definition trim :: "string \<Rightarrow> string" where
  "trim s = rev (dropWhile is_space (rev (dropWhile is_space s)))"

definition digit_value :: "char \<Rightarrow> nat option" where
  "digit_value c =
     (let n = (of_char c :: nat) in if 48 \<le> n \<and> n \<le> 57 then Some (n - 48) else None)"

fun digits_value :: "string \<Rightarrow> nat \<Rightarrow> nat option" where
  "digits_value [] acc = Some acc"
| "digits_value (c # cs) acc =
     (case digit_value c of None \<Rightarrow> None | Some d \<Rightarrow> digits_value cs (10 * acc + d))"

definition unsigned_value :: "string \<Rightarrow> jsval" where
  "unsigned_value s =
     (if s = [] then JNaN
      else case digits_value s 0 of None \<Rightarrow> JNaN | Some n \<Rightarrow> JNum (int n))"

text \<open>
  The number a string converts to: blank is 0, an optionally signed run of decimal
  digits is its value, anything else is \<open>NaN\<close>. This is the integer part of the
  language's numeric-string grammar: strings with a fraction, an exponent, a radix prefix
  or \<^verbatim>\<open>Infinity\<close> denote numbers that are not among the integers modelled here, and a
  run of digits is read exactly, where the language rounds to a double beyond \<open>2^53\<close>.
\<close>

definition str_to_number :: "string \<Rightarrow> jsval" where
  "str_to_number s =
     (case trim s of
        [] \<Rightarrow> JNum 0
      | c # cs \<Rightarrow>
          if c = CHR ''-'' then
            (case unsigned_value cs of JNum n \<Rightarrow> JNum (- n) | _ \<Rightarrow> JNaN)
          else if c = CHR ''+'' then unsigned_value cs
          else unsigned_value (c # cs))"

text \<open>\<^verbatim>\<open>Number(v)\<close>, and the conversion the operators \<^verbatim>\<open>>=\<close> and \<^verbatim>\<open>%\<close> apply.\<close>

fun to_number :: "jsval \<Rightarrow> jsval" where
  "to_number JUndefined = JNaN"
| "to_number JNull = JNum 0"
| "to_number (JBool b) = JNum (if b then 1 else 0)"
| "to_number (JNum n) = JNum n"
| "to_number JNaN = JNaN"
| "to_number (JStr s) = str_to_number s"
| "to_number (JArr xs) = str_to_number (to_string (JArr xs))"
| "to_number (JObj kvs) = JNaN"

text \<open>\<^verbatim>\<open>v >= k\<close> for a number literal \<open>k\<close>: false when \<open>v\<close> converts to \<open>NaN\<close>.\<close>

definition js_ge_num :: "jsval \<Rightarrow> int \<Rightarrow> bool" where
  "js_ge_num v k = (case to_number v of JNum n \<Rightarrow> k \<le> n | _ \<Rightarrow> False)"

text \<open>\<^verbatim>\<open>a % b\<close>: the remainder has the sign of the dividend, and \<open>NaN\<close> for a zero divisor.\<close>

definition js_rem :: "jsval \<Rightarrow> jsval \<Rightarrow> jsval" where
  "js_rem a b =
     (case (to_number a, to_number b) of
        (JNum x, JNum y) \<Rightarrow> if y = 0 then JNaN else JNum (sgn x * (\<bar>x\<bar> mod \<bar>y\<bar>))
      | _ \<Rightarrow> JNaN)"

subsection \<open>Property access\<close>

definition obj_get :: "obj \<Rightarrow> string \<Rightarrow> jsval" where
  "obj_get ob k = (case map_of ob k of None \<Rightarrow> JUndefined | Some v \<Rightarrow> v)"

text \<open>
  \<^verbatim>\<open>v.name\<close> for the data properties the program reads. Reading a property of
  \<^verbatim>\<open>undefined\<close> or \<^verbatim>\<open>null\<close> throws.
\<close>

fun get_prop :: "jsval \<Rightarrow> string \<Rightarrow> exn + jsval" where
  "get_prop JUndefined k = Inl (TypeError (''Cannot read properties of undefined (reading '' @ k @ '')''))"
| "get_prop JNull k = Inl (TypeError (''Cannot read properties of null (reading '' @ k @ '')''))"
| "get_prop (JStr s) k = Inr (if k = ''length'' then JNum (int (length s)) else JUndefined)"
| "get_prop (JArr xs) k = Inr (if k = ''length'' then JNum (int (length xs)) else JUndefined)"
| "get_prop (JObj kvs) k = Inr (obj_get kvs k)"
| "get_prop v k = Inr JUndefined"

text \<open>\<^verbatim>\<open>v[i]\<close> for a numeric index \<open>i\<close>; out of range reads \<^verbatim>\<open>undefined\<close>.\<close>

fun get_index :: "jsval \<Rightarrow> jsval \<Rightarrow> exn + jsval" where
  "get_index JUndefined i = Inl (TypeError (''Cannot read properties of undefined (reading '' @ to_string i @ '')''))"
| "get_index JNull i = Inl (TypeError (''Cannot read properties of null (reading '' @ to_string i @ '')''))"
| "get_index (JArr xs) (JNum n) =
     Inr (if 0 \<le> n \<and> n < int (length xs) then xs ! nat n else JUndefined)"
| "get_index (JStr s) (JNum n) =
     Inr (if 0 \<le> n \<and> n < int (length s) then JStr [s ! nat n] else JUndefined)"
| "get_index (JObj kvs) i = Inr (obj_get kvs (to_string i))"
| "get_index v i = Inr JUndefined"

subsection \<open>Searching arrays and strings\<close>

text \<open>\<^verbatim>\<open>Array.prototype.indexOf\<close>: the first index whose element is \<^verbatim>\<open>===\<close>, else -1.\<close>

fun array_indexOf_from :: "jsval list \<Rightarrow> jsval \<Rightarrow> int \<Rightarrow> int" where
  "array_indexOf_from [] v i = -1"
| "array_indexOf_from (x # xs) v i =
     (if strict_eq x v then i else array_indexOf_from xs v (i + 1))"

definition array_indexOf :: "jsval list \<Rightarrow> jsval \<Rightarrow> int" where
  "array_indexOf xs v = array_indexOf_from xs v 0"

text \<open>\<^verbatim>\<open>String.prototype.indexOf\<close>: the first position where the substring starts.\<close>

fun string_indexOf_from :: "string \<Rightarrow> string \<Rightarrow> int \<Rightarrow> int" where
  "string_indexOf_from [] t i = (if t = [] then i else -1)"
| "string_indexOf_from (c # cs) t i =
     (if take (length t) (c # cs) = t then i else string_indexOf_from cs t (i + 1))"

text \<open>
  \<^verbatim>\<open>v.indexOf(x)\<close>: arrays and strings have the method; on any other value the call
  throws.
\<close>

fun js_indexOf :: "jsval \<Rightarrow> jsval \<Rightarrow> exn + jsval" where
  "js_indexOf (JArr xs) x = Inr (JNum (array_indexOf xs x))"
| "js_indexOf (JStr s) x = Inr (JNum (string_indexOf_from s (to_string x) 0))"
| "js_indexOf JUndefined x = Inl (TypeError ''Cannot read properties of undefined (reading indexOf)'')"
| "js_indexOf JNull x = Inl (TypeError ''Cannot read properties of null (reading indexOf)'')"
| "js_indexOf v x = Inl (TypeError ''assignees.indexOf is not a function'')"

text \<open>\<^verbatim>\<open>a + 1\<close> for a number \<open>a\<close>.\<close>

fun js_succ :: "jsval \<Rightarrow> jsval" where
  "js_succ (JNum n) = JNum (n + 1)"
| "js_succ v = JNaN"

section \<open>The pure helpers of issue-bot.js\<close>

text \<open>
  \<^verbatim>\<open>removeEmptyProps\<close>: the \<^verbatim>\<open>for (const key in obj)\<close> loop over the keys the object has
  when the loop starts, deleting from the object as it goes.
\<close>

fun removeEmptyProps_loop :: "string list \<Rightarrow> obj \<Rightarrow> obj" where
  "removeEmptyProps_loop [] ob = ob"
| "removeEmptyProps_loop (key # keys) ob =
     removeEmptyProps_loop keys
       (if strict_eq (obj_get ob key) (JStr '''') \<or> js_typeof (obj_get ob key) = ''undefined''
        then AList.delete key ob else ob)"

definition removeEmptyProps_obj :: "obj \<Rightarrow> obj" where
  "removeEmptyProps_obj ob = removeEmptyProps_loop (map fst ob) ob"

definition needPreviousIssue :: "jsval list \<Rightarrow> bool" where
  "needPreviousIssue conditions = list_ex (\<lambda>c. same_value_zero c (JBool True)) conditions"

definition issueExists :: "jsval \<Rightarrow> bool" where
  "issueExists previousIssueNumber = js_ge_num previousIssueNumber 0"

definition checkInputs :: "obj \<Rightarrow> bool" where
  "checkInputs inputs =
     (let ok = True;
          ok = truthy (obj_get inputs ''title'');
          ok = (if truthy (obj_get inputs ''pinned'')
                then truthy (obj_get inputs ''labels'') else ok);
          ok = (if truthy (obj_get inputs ''closePrevious'')
                then truthy (obj_get inputs ''labels'') else ok);
          ok = (if truthy (obj_get inputs ''linkedComments'')
                then truthy (obj_get inputs ''labels'') else ok);
          ok = (if truthy (obj_get inputs ''rotateAssignees'')
                then truthy (obj_get inputs ''labels'') \<and> truthy (obj_get inputs ''assignees'')
                else ok)
      in ok)"

definition getNextAssignee :: "jsval \<Rightarrow> jsval \<Rightarrow> exn + jsval" where
  "getNextAssignee assignees previousAssignee =
     (case js_indexOf assignees previousAssignee of
        Inl e \<Rightarrow> Inl e
      | Inr found \<Rightarrow>
          (case get_prop assignees ''length'' of
             Inl e \<Rightarrow> Inl e
           | Inr len \<Rightarrow>
               (let index = js_rem (js_succ found) len in
                case get_index assignees index of
                  Inl e \<Rightarrow> Inl e
                | Inr next \<Rightarrow> Inr (JArr [next]))))"

section \<open>The issue tracker, the template renderer and the host\<close>

text \<open>
  Every request the program sends outside: the REST and GraphQL operations of
  \<^verbatim>\<open>octokit\<close> and the rendering of the body template by \<^verbatim>\<open>handlebars\<close>, each with
  the arguments the program passes.
\<close>

datatype call =
    IssuesListForRepo jsval
  | HandlebarsRender jsval jsval jsval
  | IssuesCreate jsval jsval jsval jsval
  | ProjectsListForRepo
  | ProjectsListColumns jsval
  | ProjectsCreateCard jsval jsval
  | IssuesUpdateMilestone jsval jsval
  | IssuesCreateComment jsval string
  | IssuesUpdateClosed jsval
  | GraphqlPinnedIssues
  | GraphqlUnpinIssue string
  | GraphqlPinIssue string

text \<open>
  An event is a request with its answer: a value, or the exception the collaborator
  threw. The world decides the answer from everything that happened before and the
  request.
\<close>

type_synonym event = "call \<times> (exn + jsval)"

type_synonym world = "event list \<Rightarrow> call \<Rightarrow> exn + jsval"

text \<open>
  Everything the program does that leaves a trace, in the order it does it: a request with
  its answer, an exception the program raises itself (a \<^verbatim>\<open>TypeError\<close> on a value it
  cannot read), a property written, an object made or stripped, and what the host is told.
\<close>

datatype entry =
    Requested call "exn + jsval"
  | Raised exn
  | Wrote nat string jsval
  | Allocated nat
  | Stripped nat
  | OutputSet string
  | FailureSet string

text \<open>
  The state of one invocation: the objects the program mutates (\<^verbatim>\<open>inputs\<close> and the copy
  \<^verbatim>\<open>createNewIssue\<close> makes), addressed by reference, the events so far, the journal of
  everything done so far, and what the host was told through \<^verbatim>\<open>core.setOutput\<close> and
  \<^verbatim>\<open>core.setFailed\<close>. Logging is left out.
\<close>

record bot =
  heap :: "nat \<Rightarrow> obj"
  next_ref :: nat
  events :: "event list"
  journal :: "entry list"
  host_output :: "string option"
  host_failure :: "string option"

type_synonym 'a action = "bot \<Rightarrow> (exn + 'a) \<times> bot"

definition returnM :: "'a \<Rightarrow> 'a action" where
  "returnM x s = (Inr x, s)"

text \<open>A computation on values: its result, or the exception it raises.\<close>

definition liftM :: "exn + 'a \<Rightarrow> 'a action" where
  "liftM r s =
     (r, case r of Inl e \<Rightarrow> s\<lparr>journal := journal s @ [Raised e]\<rparr> | Inr x \<Rightarrow> s)"

definition bindM :: "'a action \<Rightarrow> ('a \<Rightarrow> 'b action) \<Rightarrow> 'b action" where
  "bindM m f s = (case m s of (Inl e, s') \<Rightarrow> (Inl e, s') | (Inr x, s') \<Rightarrow> f x s')"

text \<open>\<^verbatim>\<open>try { m } catch (error) { h(error) }\<close>.\<close>

definition catchM :: "'a action \<Rightarrow> (exn \<Rightarrow> 'a action) \<Rightarrow> 'a action" where
  "catchM m h s = (case m s of (Inl e, s') \<Rightarrow> h e s' | (Inr x, s') \<Rightarrow> (Inr x, s'))"

text \<open>\<^verbatim>\<open>await\<close> of a request: the answer is recorded, and an exception is rethrown here.\<close>

definition request :: "world \<Rightarrow> call \<Rightarrow> jsval action" where
  "request w c s =
     (let r = w (events s) c
      in (r, s\<lparr>events := events s @ [(c, r)], journal := journal s @ [Requested c r]\<rparr>))"

definition read_prop :: "nat \<Rightarrow> string \<Rightarrow> jsval action" where
  "read_prop r k s = (Inr (obj_get (heap s r) k), s)"

definition write_prop :: "nat \<Rightarrow> string \<Rightarrow> jsval \<Rightarrow> unit action" where
  "write_prop r k v s =
     (Inr (), s\<lparr>heap := (heap s)(r := AList.update k v (heap s r)),
                journal := journal s @ [Wrote r k v]\<rparr>)"

text \<open>\<^verbatim>\<open>Object.assign({}, source)\<close>: a new object with the source's own properties.\<close>

definition object_assign_empty :: "nat \<Rightarrow> nat action" where
  "object_assign_empty source s =
     (Inr (next_ref s),
      s\<lparr>heap := (heap s)(next_ref s := heap s source), next_ref := Suc (next_ref s),
        journal := journal s @ [Allocated (next_ref s)]\<rparr>)"

text \<open>\<^verbatim>\<open>removeEmptyProps(obj)\<close> deletes from the object it is given and returns it.\<close>

definition removeEmptyProps :: "nat \<Rightarrow> nat action" where
  "removeEmptyProps r s =
     (Inr r, s\<lparr>heap := (heap s)(r := removeEmptyProps_obj (heap s r)),
               journal := journal s @ [Stripped r]\<rparr>)"

definition setOutput :: "string \<Rightarrow> unit action" where
  "setOutput v s = (Inr (), s\<lparr>host_output := Some v, journal := journal s @ [OutputSet v]\<rparr>)"

definition setFailed :: "string \<Rightarrow> unit action" where
  "setFailed m s =
     (Inr (), s\<lparr>host_failure := Some m, journal := journal s @ [FailureSet m]\<rparr>)"

subsection \<open>Array methods taking a callback\<close>

fun findIndex_from :: "(jsval \<Rightarrow> exn + bool) \<Rightarrow> jsval list \<Rightarrow> int \<Rightarrow> exn + int" where
  "findIndex_from p [] i = Inr (-1)"
| "findIndex_from p (x # xs) i =
     (case p x of
        Inl e \<Rightarrow> Inl e
      | Inr b \<Rightarrow> if b then Inr i else findIndex_from p xs (i + 1))"

fun js_findIndex :: "(jsval \<Rightarrow> exn + bool) \<Rightarrow> jsval \<Rightarrow> exn + jsval" where
  "js_findIndex p (JArr xs) =
     (case findIndex_from p xs 0 of Inl e \<Rightarrow> Inl e | Inr i \<Rightarrow> Inr (JNum i))"
| "js_findIndex p JUndefined = Inl (TypeError ''Cannot read properties of undefined (reading findIndex)'')"
| "js_findIndex p JNull = Inl (TypeError ''Cannot read properties of null (reading findIndex)'')"
| "js_findIndex p v = Inl (TypeError ''findIndex is not a function'')"

fun find_first :: "(jsval \<Rightarrow> exn + bool) \<Rightarrow> jsval list \<Rightarrow> exn + jsval" where
  "find_first p [] = Inr JUndefined"
| "find_first p (x # xs) =
     (case p x of
        Inl e \<Rightarrow> Inl e
      | Inr b \<Rightarrow> if b then Inr x else find_first p xs)"

fun js_find :: "(jsval \<Rightarrow> exn + bool) \<Rightarrow> jsval \<Rightarrow> exn + jsval" where
  "js_find p (JArr xs) = find_first p xs"
| "js_find p JUndefined = Inl (TypeError ''Cannot read properties of undefined (reading find)'')"
| "js_find p JNull = Inl (TypeError ''Cannot read properties of null (reading find)'')"
| "js_find p v = Inl (TypeError ''find is not a function'')"

text \<open>\<^verbatim>\<open>x => x.name === v\<close>.\<close>

definition prop_is :: "string \<Rightarrow> jsval \<Rightarrow> jsval \<Rightarrow> exn + bool" where
  "prop_is name v x =
     (case get_prop x name of Inl e \<Rightarrow> Inl e | Inr y \<Rightarrow> Inr (strict_eq y v))"

section \<open>The operations of issue-bot.js\<close>

text \<open>
  \<^verbatim>\<open>isPinned\<close> after the query has been answered (lines 85 to 90), and with the query.
\<close>

definition isPinned_of :: "jsval \<Rightarrow> jsval \<Rightarrow> exn + bool" where
  "isPinned_of data issueId =
     (case get_prop data ''resource'' of
        Inl e \<Rightarrow> Inl e
      | Inr resource \<Rightarrow>
          if \<not> truthy resource then Inr False
          else
            (case get_prop resource ''pinnedIssues'' of
               Inl e \<Rightarrow> Inl e
             | Inr pinned \<Rightarrow>
                 (case get_prop pinned ''nodes'' of
                    Inl e \<Rightarrow> Inl e
                  | Inr nodes \<Rightarrow>
                      (let pinnedIssues = (if truthy nodes then nodes else JArr []) in
                       case js_findIndex
                              (\<lambda>pinnedIssue.
                                 case get_prop pinnedIssue ''issue'' of
                                   Inl e \<Rightarrow> Inl e
                                 | Inr issue \<Rightarrow> prop_is ''id'' issueId issue)
                              pinnedIssues of
                         Inl e \<Rightarrow> Inl e
                       | Inr i \<Rightarrow> Inr (js_ge_num i 0)))))"

definition isPinned :: "world \<Rightarrow> jsval \<Rightarrow> bool action" where
  "isPinned w issueId =
     bindM (request w GraphqlPinnedIssues) (\<lambda>data. liftM (isPinned_of data issueId))"

definition unpin :: "world \<Rightarrow> jsval \<Rightarrow> jsval action" where
  "unpin w issueId =
     bindM (isPinned w issueId) (\<lambda>pinned.
       if \<not> pinned then returnM JUndefined
       else request w (GraphqlUnpinIssue (to_string issueId)))"

definition pin :: "world \<Rightarrow> jsval \<Rightarrow> jsval action" where
  "pin w issueId = request w (GraphqlPinIssue (to_string issueId))"

record new_issue =
  newIssueNumber :: jsval
  newIssueId :: jsval
  newIssueNodeId :: jsval

definition createNewIssue :: "world \<Rightarrow> nat \<Rightarrow> new_issue action" where
  "createNewIssue w options =
     bindM (object_assign_empty options) (\<lambda>copy.
     bindM (removeEmptyProps copy) (\<lambda>options.
     bindM (read_prop options ''title'') (\<lambda>title.
     bindM (read_prop options ''labels'') (\<lambda>labels.
     bindM (read_prop options ''assignees'') (\<lambda>assignees.
     bindM (read_prop options ''body'') (\<lambda>body.
     bindM (request w (IssuesCreate title labels assignees body)) (\<lambda>response.
     bindM (liftM (get_prop (if truthy response then response else JObj []) ''data'')) (\<lambda>data.
     bindM (liftM (get_prop data ''number'')) (\<lambda>number.
     bindM (liftM (get_prop data ''id'')) (\<lambda>ident.
     bindM (liftM (get_prop data ''node_id'')) (\<lambda>node_id.
     returnM \<lparr>newIssueNumber = to_number number, newIssueId = ident,
              newIssueNodeId = node_id\<rparr>)))))))))))"

definition closeIssue :: "world \<Rightarrow> jsval \<Rightarrow> jsval action" where
  "closeIssue w issueNumber = request w (IssuesUpdateClosed issueNumber)"

definition makeLinkedComments :: "world \<Rightarrow> jsval \<Rightarrow> jsval \<Rightarrow> unit action" where
  "makeLinkedComments w newNumber previousNumber =
     bindM (request w (IssuesCreateComment newNumber
              (''Previous in series: #'' @ to_string previousNumber))) (\<lambda>_.
     bindM (request w (IssuesCreateComment previousNumber
              (''Next in series: #'' @ to_string newNumber))) (\<lambda>_.
     returnM ()))"

record previous_issue =
  previousIssueNumber :: jsval
  previousIssueNodeId :: jsval
  previousAssignees :: jsval

definition getPreviousIssue :: "world \<Rightarrow> jsval \<Rightarrow> previous_issue action" where
  "getPreviousIssue w labels =
     bindM (request w (IssuesListForRepo labels)) (\<lambda>response.
     bindM (liftM (get_prop response ''data'')) (\<lambda>list.
     bindM (liftM (get_index list (JNum 0))) (\<lambda>data.
     bindM (if truthy data then
              bindM (liftM (get_prop data ''number'')) (\<lambda>number.
              bindM (liftM (get_prop data ''node_id'')) (\<lambda>node_id.
              bindM (liftM (get_prop data ''assignees'')) (\<lambda>assignees.
              returnM (number, node_id, assignees))))
            else returnM (JUndefined, JUndefined, JStr '''')) (\<lambda>(number, node_id, assignees).
     returnM \<lparr>previousIssueNumber = (if truthy number then to_number number else JUndefined),
              previousIssueNodeId = node_id,
              previousAssignees = assignees\<rparr>))))"

definition addIssueToProjectColumn :: "world \<Rightarrow> jsval \<Rightarrow> jsval \<Rightarrow> jsval \<Rightarrow> unit action" where
  "addIssueToProjectColumn w issueId projectNumber columnName =
     bindM (request w ProjectsListForRepo) (\<lambda>response.
     bindM (liftM (get_prop response ''data'')) (\<lambda>projects.
     bindM (liftM (js_find (prop_is ''number'' (to_number projectNumber)) projects)) (\<lambda>project.
     if \<not> truthy project then returnM ()
     else
       bindM (liftM (get_prop project ''id'')) (\<lambda>project_id.
       bindM (request w (ProjectsListColumns project_id)) (\<lambda>response.
       bindM (liftM (get_prop response ''data'')) (\<lambda>columns.
       bindM (liftM (js_find (prop_is ''name'' columnName) columns)) (\<lambda>column.
       if \<not> truthy column then returnM ()
       else
         bindM (liftM (get_prop column ''id'')) (\<lambda>column_id.
         bindM (request w (ProjectsCreateCard column_id issueId)) (\<lambda>_.
         returnM ())))))))))"

definition addIssueToMilestone :: "world \<Rightarrow> jsval \<Rightarrow> jsval \<Rightarrow> unit action" where
  "addIssueToMilestone w issueNumber milestoneNumber =
     bindM (request w (IssuesUpdateMilestone issueNumber milestoneNumber)) (\<lambda>response.
     bindM (liftM (get_prop response ''data'')) (\<lambda>issue.
     returnM ()))"

section \<open>The orchestrator\<close>

text \<open>
  \<^verbatim>\<open>run\<close>, in the order of its lines. Lines 284 to 288: the previous issue is looked
  up only when \<^verbatim>\<open>needPreviousIssue\<close> says so; otherwise its number stays -1.
\<close>

definition run_lookup :: "world \<Rightarrow> nat \<Rightarrow> previous_issue action" where
  "run_lookup w inputs =
     bindM (read_prop inputs ''pinned'') (\<lambda>pinned.
     bindM (read_prop inputs ''closePrevious'') (\<lambda>closePrevious.
     bindM (read_prop inputs ''rotateAssignees'') (\<lambda>rotateAssignees.
     bindM (read_prop inputs ''linkedComments'') (\<lambda>linkedComments.
     if needPreviousIssue [pinned, closePrevious, rotateAssignees, linkedComments]
     then bindM (read_prop inputs ''labels'') (\<lambda>labels. getPreviousIssue w labels)
     else returnM \<lparr>previousIssueNumber = JNum (- 1), previousIssueNodeId = JUndefined,
                   previousAssignees = JUndefined\<rparr>))))"

text \<open>Lines 290 to 294: the assignee rotation.\<close>

definition run_rotate :: "nat \<Rightarrow> previous_issue \<Rightarrow> unit action" where
  "run_rotate inputs previous =
     bindM (read_prop inputs ''rotateAssignees'') (\<lambda>rotateAssignees.
     if issueExists (previousIssueNumber previous) \<and> truthy rotateAssignees then
       bindM (liftM (get_prop (previousAssignees previous) ''length'')) (\<lambda>len.
       bindM (if truthy len then
                bindM (liftM (get_index (previousAssignees previous) (JNum 0))) (\<lambda>first.
                liftM (get_prop first ''login''))
              else returnM JUndefined) (\<lambda>previousAssignee.
       bindM (read_prop inputs ''assignees'') (\<lambda>assignees.
       bindM (liftM (getNextAssignee assignees previousAssignee)) (\<lambda>next.
       write_prop inputs ''assignees'' next))))
     else returnM ())"

text \<open>Lines 296 to 310: the body is rendered, the issue created, attached and linked.\<close>

definition run_create :: "world \<Rightarrow> nat \<Rightarrow> previous_issue \<Rightarrow> new_issue action" where
  "run_create w inputs previous =
     bindM (run_rotate inputs previous) (\<lambda>_.
     bindM (read_prop inputs ''body'') (\<lambda>body.
     bindM (read_prop inputs ''assignees'') (\<lambda>assignees.
     bindM (request w (HandlebarsRender body (previousIssueNumber previous) assignees)) (\<lambda>rendered.
     bindM (write_prop inputs ''body'' rendered) (\<lambda>_.
     bindM (createNewIssue w inputs) (\<lambda>new.
     bindM (read_prop inputs ''project'') (\<lambda>project.
     bindM (read_prop inputs ''column'') (\<lambda>column.
     bindM (if truthy project \<and> truthy column
            then addIssueToProjectColumn w (newIssueId new) project column
            else returnM ()) (\<lambda>_.
     bindM (read_prop inputs ''milestone'') (\<lambda>milestone.
     bindM (if truthy milestone
            then addIssueToMilestone w (newIssueNumber new) milestone
            else returnM ()) (\<lambda>_.
     bindM (read_prop inputs ''linkedComments'') (\<lambda>linkedComments.
     bindM (if issueExists (previousIssueNumber previous) \<and> truthy linkedComments
            then makeLinkedComments w (newIssueNumber new) (previousIssueNumber previous)
            else returnM ()) (\<lambda>_.
     returnM new)))))))))))))"

text \<open>Lines 312 to 321: the previous issue is closed and the pin moves to the new one.\<close>

definition run_close_previous :: "world \<Rightarrow> nat \<Rightarrow> previous_issue \<Rightarrow> new_issue \<Rightarrow> unit action" where
  "run_close_previous w inputs previous new =
     bindM (read_prop inputs ''closePrevious'') (\<lambda>closePrevious.
     if issueExists (previousIssueNumber previous) \<and> truthy closePrevious then
       bindM (closeIssue w (previousIssueNumber previous)) (\<lambda>_.
       bindM (read_prop inputs ''pinned'') (\<lambda>pinned.
       if truthy pinned then
         bindM (unpin w (previousIssueNodeId previous)) (\<lambda>_.
         bindM (pin w (newIssueNodeId new)) (\<lambda>_.
         returnM ()))
       else returnM ()))
     else returnM ())"

text \<open>Lines 323 to 326: the output.\<close>

definition run_output :: "new_issue \<Rightarrow> unit action" where
  "run_output new =
     (if truthy (newIssueNumber new) then setOutput (to_string (newIssueNumber new))
      else returnM ())"

text \<open>The body of the \<^verbatim>\<open>try\<close>: lines 284 to 321, then the output.\<close>

definition run_steps :: "world \<Rightarrow> nat \<Rightarrow> new_issue action" where
  "run_steps w inputs =
     bindM (run_lookup w inputs) (\<lambda>previous.
     bindM (run_create w inputs previous) (\<lambda>new.
     bindM (run_close_previous w inputs previous new) (\<lambda>_.
     returnM new)))"

definition run_body :: "world \<Rightarrow> nat \<Rightarrow> unit action" where
  "run_body w inputs = bindM (run_steps w inputs) run_output"

text \<open>The \<^verbatim>\<open>try\<close> around the body, and its \<^verbatim>\<open>catch\<close>.\<close>

definition run :: "world \<Rightarrow> nat \<Rightarrow> unit action" where
  "run w inputs =
     catchM (run_body w inputs)
       (\<lambda>error. setFailed (''Error encountered: '' @ describe error @ ''.''))"

text \<open>The state an invocation starts in: the inputs object at reference 0, nothing sent.\<close>

definition start :: "obj \<Rightarrow> bot" where
  "start inputs =
     \<lparr>heap = (\<lambda>r. if r = 0 then inputs else []), next_ref = 1, events = [],
      journal = [], host_output = None, host_failure = None\<rparr>"

text \<open>The events an action added to those of the state it started in.\<close>

definition added :: "bot \<Rightarrow> bot \<Rightarrow> event list" where
  "added s s' = drop (length (events s)) (events s')"

text \<open>The journal entries an action added.\<close>

definition noted :: "bot \<Rightarrow> bot \<Rightarrow> entry list" where
  "noted s s' = drop (length (journal s)) (journal s')"

section \<open>What is said about an action\<close>

text \<open>The answers are the world's: each event's answer is what the world gives at that point.\<close>

fun faithful :: "world \<Rightarrow> event list \<Rightarrow> event list \<Rightarrow> bool" where
  "faithful w past [] = True"
| "faithful w past (ev # rest) = (snd ev = w past (fst ev) \<and> faithful w (past @ [ev]) rest)"

definition thrown :: "exn + 'a \<Rightarrow> exn option" where
  "thrown r = (case r of Inl e \<Rightarrow> Some e | Inr x \<Rightarrow> None)"

text \<open>
  Only the last event can be answered by an exception, and then the action ends with that
  exception.
\<close>

fun stops_at_exception :: "exn option \<Rightarrow> event list \<Rightarrow> bool" where
  "stops_at_exception t [] = True"
| "stops_at_exception t [ev] = (case snd ev of Inl e \<Rightarrow> t = Some e | Inr v \<Rightarrow> True)"
| "stops_at_exception t (ev # ev' # rest) =
     ((case snd ev of Inl e \<Rightarrow> False | Inr v \<Rightarrow> True) \<and> stops_at_exception t (ev' # rest))"

text \<open>
  An orderly action only adds events, all of them requests in \<open>P\<close> answered by the world,
  stops at the first exception, and tells the host nothing.
\<close>

definition orderly :: "world \<Rightarrow> (call \<Rightarrow> bool) \<Rightarrow> 'a action \<Rightarrow> bool" where
  "orderly w P m =
     (\<forall>s. \<exists>new. events (snd (m s)) = events s @ new
          \<and> list_all (\<lambda>ev. P (fst ev)) new
          \<and> faithful w (events s) new
          \<and> stops_at_exception (thrown (fst (m s))) new
          \<and> host_output (snd (m s)) = host_output s
          \<and> host_failure (snd (m s)) = host_failure s)"

text \<open>The exception that arises at a journal entry, if one does.\<close>

fun raises :: "entry \<Rightarrow> exn option" where
  "raises (Requested c r) = thrown r"
| "raises (Raised e) = Some e"
| "raises x = None"

fun requests_of :: "entry list \<Rightarrow> event list" where
  "requests_of [] = []"
| "requests_of (Requested c r # rest) = (c, r) # requests_of rest"
| "requests_of (x # rest) = requests_of rest"

text \<open>
  An exception arises at the last entry or nowhere, and the action ends with it: with
  exception \<open>e\<close> exactly when \<open>e\<close> arises at the last entry, and normally otherwise.
\<close>

fun ends_at_throw :: "exn option \<Rightarrow> entry list \<Rightarrow> bool" where
  "ends_at_throw t [] = (t = None)"
| "ends_at_throw t [x] = (raises x = t)"
| "ends_at_throw t (x # y # rest) = (raises x = None \<and> ends_at_throw t (y # rest))"

text \<open>
  A journalled action only adds to the journal; the requests it notes are the events it
  adds; and once an exception arises, from a request or from the program itself, it does
  nothing more.
\<close>

definition journalled :: "'a action \<Rightarrow> bool" where
  "journalled m =
     (\<forall>s. \<exists>new. journal (snd (m s)) = journal s @ new
          \<and> events (snd (m s)) = events s @ requests_of new
          \<and> ends_at_throw (thrown (fst (m s))) new)"

text \<open>An action that leaves every object as it is and makes none.\<close>

definition heap_untouched :: "'a action \<Rightarrow> bool" where
  "heap_untouched m = (\<forall>s. heap (snd (m s)) = heap s \<and> next_ref (snd (m s)) = next_ref s)"

text \<open>
  An action that, of the object at \<open>r\<close>, writes at most \<^verbatim>\<open>assignees\<close> and \<^verbatim>\<open>body\<close>.
\<close>

definition keeps_flags :: "nat \<Rightarrow> 'a action \<Rightarrow> bool" where
  "keeps_flags r m =
     (\<forall>s. r < next_ref s \<longrightarrow>
          next_ref s \<le> next_ref (snd (m s))
          \<and> (\<forall>k. k \<noteq> ''assignees'' \<and> k \<noteq> ''body'' \<longrightarrow>
                 obj_get (heap (snd (m s)) r) k = obj_get (heap s r) k))"

fun is_lookup :: "call \<Rightarrow> bool" where
  "is_lookup (IssuesListForRepo labels) = True"
| "is_lookup c = False"

fun is_close_or_pin :: "call \<Rightarrow> bool" where
  "is_close_or_pin (IssuesUpdateClosed n) = True"
| "is_close_or_pin GraphqlPinnedIssues = True"
| "is_close_or_pin (GraphqlUnpinIssue i) = True"
| "is_close_or_pin (GraphqlPinIssue i) = True"
| "is_close_or_pin c = False"

section \<open>Sample data\<close>

text \<open>The answer to the pinned-issues query for a repository whose pinned issues have these ids.\<close>

definition pinned_issues_response :: "string list \<Rightarrow> jsval" where
  "pinned_issues_response ids =
     JObj [(''resource'', JObj [(''pinnedIssues'', JObj [(''nodes'',
       JArr (map (\<lambda>i. JObj [(''issue'', JObj [(''id'', JStr i)])]) ids))])])]"

text \<open>
  A tracker holding a previous issue 10 (node N10, pinned, assigned to alice) that answers
  the creation with issue 20 (node N20); the renderer returns the template.
\<close>

definition sample_world :: world where
  "sample_world past c =
     (case c of
        IssuesListForRepo labels \<Rightarrow>
          Inr (JObj [(''data'', JArr [JObj [(''number'', JNum 10), (''node_id'', JStr ''N10''),
                 (''assignees'', JArr [JObj [(''login'', JStr ''alice'')]])]])])
      | HandlebarsRender body n a \<Rightarrow> Inr body
      | IssuesCreate t l a b \<Rightarrow>
          Inr (JObj [(''data'', JObj [(''number'', JNum 20), (''id'', JNum 2000),
                 (''node_id'', JStr ''N20'')])])
      | GraphqlPinnedIssues \<Rightarrow> Inr (pinned_issues_response [''N10'', ''N7''])
      | _ \<Rightarrow> Inr (JObj [(''data'', JObj [])]))"

text \<open>The same tracker, answering the creation with an empty object.\<close>

definition malformed_world :: world where
  "malformed_world past c =
     (case c of
        IssuesCreate t l a b \<Rightarrow> Inr (JObj [])
      | _ \<Rightarrow> sample_world past c)"

text \<open>The same tracker, refusing to close an issue.\<close>

definition refusing_world :: world where
  "refusing_world past c =
     (case c of
        IssuesUpdateClosed n \<Rightarrow> Inl (Thrown ''HttpError: Not Found'')
      | _ \<Rightarrow> sample_world past c)"

definition sample_inputs :: obj where
  "sample_inputs =
     [(''title'', JStr ''Standup''), (''body'', JStr ''Hello''), (''labels'', JStr ''recurring''),
      (''assignees'', JArr [JStr ''alice'', JStr ''bob'']), (''pinned'', JBool True),
      (''closePrevious'', JBool True), (''rotateAssignees'', JBool False),
      (''linkedComments'', JBool False), (''milestone'', JStr '''')]"

text \<open>Inputs that ask for the rotation and give no assignees.\<close>

definition rotating_inputs :: obj where
  "rotating_inputs =
     [(''title'', JStr ''Standup''), (''body'', JStr ''Hello''), (''labels'', JStr ''recurring''),
      (''rotateAssignees'', JBool True)]"

text \<open>Inputs with every flag off, and inputs whose flags are truthy but not \<^verbatim>\<open>true\<close>.\<close>

definition plain_inputs :: obj where
  "plain_inputs =
     [(''title'', JStr ''Standup''), (''body'', JStr ''Hello''), (''pinned'', JBool False),
      (''closePrevious'', JBool False), (''rotateAssignees'', JBool False),
      (''linkedComments'', JBool False)]"

definition loose_inputs :: obj where
  "loose_inputs =
     [(''title'', JStr ''Standup''), (''body'', JStr ''Hello''), (''labels'', JStr ''recurring''),
      (''pinned'', JStr ''true''), (''closePrevious'', JNum 1), (''rotateAssignees'', JBool False),
      (''linkedComments'', JBool False)]"

section \<open>Properties of the pure helpers\<close>

subsection \<open>removeEmptyProps\<close>

lemma empty_prop_iff:
  "(strict_eq v (JStr '''') \<or> js_typeof v = ''undefined'') = (v = JStr '''' \<or> v = JUndefined)"
  by (cases v) auto

lemma obj_get_distinct:
  "distinct (map fst ob) \<Longrightarrow> (k, v) \<in> set ob \<Longrightarrow> obj_get ob k = v"
  by (simp add: obj_get_def)

lemma removeEmptyProps_loop_filter:
  "distinct (map fst ob) \<Longrightarrow>
   removeEmptyProps_loop keys ob =
     filter (\<lambda>kv. fst kv \<in> set keys \<longrightarrow> snd kv \<noteq> JStr '''' \<and> snd kv \<noteq> JUndefined) ob"
proof (induction keys arbitrary: ob)
  case Nil
  then show ?case by simp
next
  case (Cons key keys)
  show ?case
  proof (cases "obj_get ob key = JStr '''' \<or> obj_get ob key = JUndefined")
    case True
    have d: "distinct (map fst (AList.delete key ob))"
      using Cons.prems by (simp add: distinct_delete)
    have "removeEmptyProps_loop (key # keys) ob = removeEmptyProps_loop keys (AList.delete key ob)"
      using True by (simp add: empty_prop_iff)
    also have "\<dots> = filter (\<lambda>kv. fst kv \<in> set keys \<longrightarrow> snd kv \<noteq> JStr '''' \<and> snd kv \<noteq> JUndefined)
                        (AList.delete key ob)"
      by (rule Cons.IH [OF d])
    also have "\<dots> = filter (\<lambda>kv. fst kv \<in> set (key # keys) \<longrightarrow> snd kv \<noteq> JStr '''' \<and> snd kv \<noteq> JUndefined) ob"
      unfolding AList.delete_eq filter_filter
      apply (rule filter_cong [OF refl])
      using True obj_get_distinct [OF Cons.prems] by fastforce
    finally show ?thesis .
  next
    case False
    have "removeEmptyProps_loop (key # keys) ob = removeEmptyProps_loop keys ob"
      using False by (simp add: empty_prop_iff)
    also have "\<dots> = filter (\<lambda>kv. fst kv \<in> set keys \<longrightarrow> snd kv \<noteq> JStr '''' \<and> snd kv \<noteq> JUndefined) ob"
      by (rule Cons.IH [OF Cons.prems])
    also have "\<dots> = filter (\<lambda>kv. fst kv \<in> set (key # keys) \<longrightarrow> snd kv \<noteq> JStr '''' \<and> snd kv \<noteq> JUndefined) ob"
      apply (rule filter_cong [OF refl])
      using False obj_get_distinct [OF Cons.prems] by fastforce
    finally show ?thesis .
  qed
qed

lemma removeEmptyProps_obj_filter:
  "distinct (map fst ob) \<Longrightarrow>
   removeEmptyProps_obj ob = filter (\<lambda>kv. snd kv \<noteq> JStr '''' \<and> snd kv \<noteq> JUndefined) ob"
  unfolding removeEmptyProps_obj_def
  by (simp add: removeEmptyProps_loop_filter cong: filter_cong)

text \<open>
  Claim C4. \<^verbatim>\<open>removeEmptyProps({a: '', b: 'x', c: undefined})\<close> is exactly \<^verbatim>\<open>{b: 'x'}\<close>,
  as a value and as the object the call mutates and returns; and for every object, the
  properties bound to the empty string or to \<^verbatim>\<open>undefined\<close> are removed and every other
  property is kept, with its value and in its place.
\<close>

theorem removeEmptyProps_keeps_nonempty:
  "removeEmptyProps_obj [(''a'', JStr ''''), (''b'', JStr ''x''), (''c'', JUndefined)] = [(''b'', JStr ''x'')]
   \<and> (let (r, s) = removeEmptyProps 0 (start [(''a'', JStr ''''), (''b'', JStr ''x''), (''c'', JUndefined)])
      in r = Inr 0 \<and> heap s 0 = [(''b'', JStr ''x'')])
   \<and> (\<forall>ob. distinct (map fst ob) \<longrightarrow>
          removeEmptyProps_obj ob = filter (\<lambda>kv. snd kv \<noteq> JStr '''' \<and> snd kv \<noteq> JUndefined) ob)"
  by (simp add: removeEmptyProps_obj_filter removeEmptyProps_def start_def)

theorem removeEmptyProps_keeps_nonempty_witness:
  "distinct (map fst [(''t'', JStr ''T''), (''m'', JStr ''''), (''n'', JNum 0)])
   \<and> removeEmptyProps_obj [(''t'', JStr ''T''), (''m'', JStr ''''), (''n'', JNum 0)]
       = [(''t'', JStr ''T''), (''n'', JNum 0)]"
  using removeEmptyProps_keeps_nonempty by simp

subsection \<open>checkInputs\<close>

text \<open>
  Claim C1 says that an empty title makes \<^verbatim>\<open>checkInputs\<close> return false whatever the other
  fields are. Each later rule assigns \<^verbatim>\<open>ok\<close> anew instead of combining it with the
  result so far: with an empty title, \<^verbatim>\<open>pinned\<close> set and a label given, the function
  returns true.
\<close>

theorem checkInputs_empty_title_accepted:
  "checkInputs [(''title'', JStr ''''), (''pinned'', JBool True), (''labels'', JStr ''x'')] = True
   \<and> truthy (obj_get [(''title'', JStr ''''), (''pinned'', JBool True), (''labels'', JStr ''x'')] ''title'') = False"
  by (simp add: checkInputs_def obj_get_def)

subsection \<open>issueExists\<close>

text \<open>
  Claim C3 as stated, for every value: \<^verbatim>\<open>null >= 0\<close> is true, so \<^verbatim>\<open>issueExists(null)\<close>
  is true although \<^verbatim>\<open>null\<close> is not a number.
\<close>

theorem issueExists_null: "issueExists JNull \<and> js_typeof JNull \<noteq> ''number''"
  by (simp add: issueExists_def js_ge_num_def)

text \<open>
  Claim C3, amended. \<^verbatim>\<open>issueExists(n)\<close> is true if and only if \<open>n\<close> converts to a number
  that is at least 0. For \<open>n\<close> a number or \<^verbatim>\<open>undefined\<close>, that is: if and only if \<open>n\<close> is
  a number with \<open>n \<ge> 0\<close>; it is false for -1 and for \<^verbatim>\<open>undefined\<close>.
\<close>

theorem issueExists_iff:
  "(issueExists n \<longleftrightarrow> (\<exists>k. to_number n = JNum k \<and> 0 \<le> k))
   \<and> (js_typeof n = ''number'' \<or> n = JUndefined \<longrightarrow> (issueExists n \<longleftrightarrow> (\<exists>k. n = JNum k \<and> 0 \<le> k)))
   \<and> \<not> issueExists (JNum (- 1)) \<and> \<not> issueExists JUndefined"
  by (cases n; cases "to_number n") (auto simp: issueExists_def js_ge_num_def)

theorem issueExists_iff_witness:
  "js_typeof (JNum 5) = ''number'' \<and> issueExists (JNum 5) \<and> \<not> issueExists JNaN
   \<and> \<not> issueExists (JNum (- 1)) \<and> \<not> issueExists JUndefined"
  using issueExists_iff [of "JNum 5"] issueExists_iff [of JNaN] by simp

subsection \<open>needPreviousIssue\<close>

lemma same_value_zero_true: "same_value_zero c (JBool True) = (c = JBool True)"
  by (cases c) (auto simp: same_value_zero_def)

lemma needPreviousIssue_iff: "needPreviousIssue cs = (JBool True \<in> set cs)"
  by (induction cs) (auto simp: needPreviousIssue_def same_value_zero_true)

subsection \<open>getNextAssignee\<close>

lemma array_indexOf_from_absent:
  "\<forall>x\<in>set xs. \<not> strict_eq x v \<Longrightarrow> array_indexOf_from xs v i = - 1"
  by (induction xs arbitrary: i) auto

lemma array_indexOf_from_first:
  "j < length xs \<Longrightarrow> strict_eq (xs ! j) v \<Longrightarrow> \<forall>l<j. \<not> strict_eq (xs ! l) v \<Longrightarrow>
   array_indexOf_from xs v i = i + int j"
proof (induction xs arbitrary: i j)
  case Nil
  then show ?case by simp
next
  case (Cons x xs)
  show ?case
  proof (cases j)
    case 0
    with Cons.prems show ?thesis by simp
  next
    case (Suc j')
    have nx: "\<not> strict_eq x v" using Cons.prems(3) Suc by auto
    have "array_indexOf_from xs v (i + 1) = (i + 1) + int j'"
    proof (rule Cons.IH)
      show "j' < length xs" using Cons.prems(1) Suc by simp
      show "strict_eq (xs ! j') v" using Cons.prems(2) Suc by simp
      show "\<forall>l<j'. \<not> strict_eq (xs ! l) v"
      proof (intro allI impI)
        fix l assume "l < j'"
        then have "Suc l < j" using Suc by simp
        with Cons.prems(3) have "\<not> strict_eq ((x # xs) ! Suc l) v" by blast
        then show "\<not> strict_eq (xs ! l) v" by simp
      qed
    qed
    with nx Suc show ?thesis by simp
  qed
qed

lemma array_indexOf_from_range:
  "array_indexOf_from xs v i = - 1 \<or>
   (i \<le> array_indexOf_from xs v i \<and> array_indexOf_from xs v i < i + int (length xs))"
proof (induction xs arbitrary: i)
  case Nil
  then show ?case by simp
next
  case (Cons x xs)
  from Cons.IH [of "i + 1"] show ?case by auto
qed

lemma getNextAssignee_array:
  assumes "A \<noteq> []"
  shows "getNextAssignee (JArr A) P =
           Inr (JArr [A ! nat ((array_indexOf A P + 1) mod int (length A))])"
proof -
  let ?n = "array_indexOf A P + 1"
  have len: "0 < int (length A)" using assms by simp
  have nonneg: "0 \<le> ?n"
    using array_indexOf_from_range [of A P 0] by (auto simp: array_indexOf_def)
  have rem: "js_rem (JNum ?n) (JNum (int (length A))) = JNum (?n mod int (length A))"
    using nonneg len by (auto simp: js_rem_def sgn_if)
  have "0 \<le> ?n mod int (length A)" "?n mod int (length A) < int (length A)"
    using len by simp_all
  then show ?thesis
    using rem by (simp add: getNextAssignee_def)
qed

text \<open>
  Claim C2. For a non-empty array \<open>A\<close> and any previous assignee \<open>P\<close>,
  \<^verbatim>\<open>getNextAssignee(A, P)\<close> returns the one-element array holding
  \<open>A[(indexOf(A, P) + 1) mod length(A)]\<close>. When no element of \<open>A\<close> is \<open>P\<close>, the index is -1
  and the result is \<open>[A[0]]\<close>; when \<open>P\<close> first occurs at \<open>j\<close>, the index is \<open>j\<close> and the
  result holds the element after it, wrapping around.
\<close>

theorem getNextAssignee_round_robin:
  assumes "A \<noteq> []"
  shows "getNextAssignee (JArr A) P =
           Inr (JArr [A ! nat ((array_indexOf A P + 1) mod int (length A))])
       \<and> ((\<forall>x\<in>set A. \<not> strict_eq x P) \<longrightarrow>
            array_indexOf A P = - 1 \<and> getNextAssignee (JArr A) P = Inr (JArr [A ! 0]))
       \<and> (\<forall>j<length A. strict_eq (A ! j) P \<and> (\<forall>l<j. \<not> strict_eq (A ! l) P) \<longrightarrow>
            array_indexOf A P = int j
            \<and> getNextAssignee (JArr A) P = Inr (JArr [A ! (Suc j mod length A)]))"
proof (intro conjI allI impI)
  show "getNextAssignee (JArr A) P =
          Inr (JArr [A ! nat ((array_indexOf A P + 1) mod int (length A))])"
    by (rule getNextAssignee_array [OF assms])
next
  assume absent: "\<forall>x\<in>set A. \<not> strict_eq x P"
  then show i: "array_indexOf A P = - 1"
    by (simp add: array_indexOf_def array_indexOf_from_absent)
  show "getNextAssignee (JArr A) P = Inr (JArr [A ! 0])"
    using getNextAssignee_array [OF assms, of P] i by simp
next
  fix j assume j: "j < length A" and h: "strict_eq (A ! j) P \<and> (\<forall>l<j. \<not> strict_eq (A ! l) P)"
  then show i: "array_indexOf A P = int j"
    using array_indexOf_from_first [of j A P 0] by (simp add: array_indexOf_def)
  have "(int j + 1) mod int (length A) = int (Suc j mod length A)"
    by (simp add: zmod_int add.commute)
  then have "nat ((int j + 1) mod int (length A)) = Suc j mod length A"
    by simp
  then show "getNextAssignee (JArr A) P = Inr (JArr [A ! (Suc j mod length A)])"
    using getNextAssignee_array [OF assms, of P] i by simp
qed

theorem getNextAssignee_round_robin_witness:
  "[JStr ''alice'', JStr ''bob''] \<noteq> []
   \<and> getNextAssignee (JArr [JStr ''alice'', JStr ''bob'']) (JStr ''bob'') = Inr (JArr [JStr ''alice''])
   \<and> getNextAssignee (JArr [JStr ''alice'', JStr ''bob'']) (JStr ''alice'') = Inr (JArr [JStr ''bob''])
   \<and> getNextAssignee (JArr [JStr ''alice'', JStr ''bob'']) JUndefined = Inr (JArr [JStr ''alice''])"
proof -
  have ne: "[JStr ''alice'', JStr ''bob''] \<noteq> []" by simp
  have i1: "array_indexOf [JStr ''alice'', JStr ''bob''] (JStr ''bob'') = 1"
    by (simp add: array_indexOf_def)
  have i2: "array_indexOf [JStr ''alice'', JStr ''bob''] (JStr ''alice'') = 0"
    by (simp add: array_indexOf_def)
  have i3: "array_indexOf [JStr ''alice'', JStr ''bob''] JUndefined = - 1"
    by (simp add: array_indexOf_def)
  show ?thesis
    using getNextAssignee_round_robin [OF ne, of "JStr ''bob''", THEN conjunct1]
      getNextAssignee_round_robin [OF ne, of "JStr ''alice''", THEN conjunct1]
      getNextAssignee_round_robin [OF ne, of JUndefined, THEN conjunct1]
      i1 i2 i3
    by simp
qed

subsection \<open>isPinned\<close>







section \<open>Properties of the actions\<close>

subsection \<open>Orderly actions\<close>

lemma faithful_append:
  "faithful w past (a @ b) = (faithful w past a \<and> faithful w (past @ a) b)"
  by (induction a arbitrary: past) auto

lemma stops_answered:
  "stops_at_exception None new \<Longrightarrow> \<forall>ev\<in>set new. \<exists>v. snd ev = Inr v"
  by (induction "None :: exn option" new rule: stops_at_exception.induct)
     (auto split: sum.splits)

lemma stops_append:
  "\<forall>ev\<in>set a. \<exists>v. snd ev = Inr v \<Longrightarrow> stops_at_exception t b \<Longrightarrow>
   stops_at_exception t (a @ b)"
proof (induction a)
  case Nil
  then show ?case by simp
next
  case (Cons x a)
  then have rest: "stops_at_exception t (a @ b)" by simp
  from Cons.prems obtain v where v: "snd x = Inr v" by auto
  show ?case
  proof (cases "a @ b")
    case Nil
    with v show ?thesis by simp
  next
    case (Cons y r)
    with v rest show ?thesis by simp
  qed
qed

lemma stops_index:
  "stops_at_exception t new \<Longrightarrow> k < length new \<Longrightarrow> snd (new ! k) = Inl e \<Longrightarrow>
   Suc k = length new \<and> t = Some e"
proof (induction t new arbitrary: k rule: stops_at_exception.induct)
  case (1 t)
  then show ?case by simp
next
  case (2 t ev)
  then show ?case by simp
next
  case (3 t ev ev' rest)
  show ?case
  proof (cases k)
    case 0
    with "3.prems" show ?thesis by simp
  next
    case (Suc k')
    with "3.prems" "3.IH" [of k'] show ?thesis by simp
  qed
qed

lemma bindM_Inl: "fst (m s) = Inl e \<Longrightarrow> bindM m f s = (Inl e, snd (m s))"
  by (cases "m s") (simp add: bindM_def)

lemma bindM_Inr: "fst (m s) = Inr x \<Longrightarrow> bindM m f s = f x (snd (m s))"
  by (cases "m s") (simp add: bindM_def)

named_theorems orderly_intros

lemma orderly_returnM [orderly_intros]: "orderly w P (returnM x)"
  by (simp add: orderly_def returnM_def)

lemma orderly_liftM [orderly_intros]: "orderly w P (liftM r)"
  by (simp add: orderly_def liftM_def split: sum.splits)

lemma orderly_read_prop [orderly_intros]: "orderly w P (read_prop r k)"
  by (simp add: orderly_def read_prop_def)

lemma orderly_write_prop [orderly_intros]: "orderly w P (write_prop r k v)"
  by (simp add: orderly_def write_prop_def)

lemma orderly_object_assign_empty [orderly_intros]: "orderly w P (object_assign_empty r)"
  by (simp add: orderly_def object_assign_empty_def)

lemma orderly_removeEmptyProps [orderly_intros]: "orderly w P (removeEmptyProps r)"
  by (simp add: orderly_def removeEmptyProps_def)

lemma orderly_request [orderly_intros]: "P c \<Longrightarrow> orderly w P (request w c)"
  unfolding orderly_def
proof
  fix s
  show "\<exists>new. events (snd (request w c s)) = events s @ new
          \<and> list_all (\<lambda>ev. P (fst ev)) new
          \<and> faithful w (events s) new
          \<and> stops_at_exception (thrown (fst (request w c s))) new
          \<and> host_output (snd (request w c s)) = host_output s
          \<and> host_failure (snd (request w c s)) = host_failure s"
    if "P c"
    using that
    by (intro exI [of _ "[(c, w (events s) c)]"])
       (simp add: request_def Let_def thrown_def split: sum.splits)
qed

lemma orderly_bindM [orderly_intros]:
  assumes m: "orderly w P m" and f: "\<And>x. orderly w P (f x)"
  shows "orderly w P (bindM m f)"
  unfolding orderly_def
proof
  fix s
  from m obtain new1 where m1:
    "events (snd (m s)) = events s @ new1" "list_all (\<lambda>ev. P (fst ev)) new1"
    "faithful w (events s) new1" "stops_at_exception (thrown (fst (m s))) new1"
    "host_output (snd (m s)) = host_output s" "host_failure (snd (m s)) = host_failure s"
    unfolding orderly_def by blast
  show "\<exists>new. events (snd (bindM m f s)) = events s @ new
          \<and> list_all (\<lambda>ev. P (fst ev)) new
          \<and> faithful w (events s) new
          \<and> stops_at_exception (thrown (fst (bindM m f s))) new
          \<and> host_output (snd (bindM m f s)) = host_output s
          \<and> host_failure (snd (bindM m f s)) = host_failure s"
  proof (cases "fst (m s)")
    case (Inl e)
    then have "bindM m f s = (Inl e, snd (m s))"
      by (rule bindM_Inl)
    with m1 Inl show ?thesis
      by (intro exI [of _ new1]) (simp add: thrown_def)
  next
    case (Inr x)
    then have b: "bindM m f s = f x (snd (m s))"
      by (rule bindM_Inr)
    from f [of x] obtain new2 where m2:
      "events (snd (f x (snd (m s)))) = events (snd (m s)) @ new2"
      "list_all (\<lambda>ev. P (fst ev)) new2"
      "faithful w (events (snd (m s))) new2"
      "stops_at_exception (thrown (fst (f x (snd (m s))))) new2"
      "host_output (snd (f x (snd (m s)))) = host_output (snd (m s))"
      "host_failure (snd (f x (snd (m s)))) = host_failure (snd (m s))"
      unfolding orderly_def by blast
    from m1(4) Inr have "\<forall>ev\<in>set new1. \<exists>v. snd ev = Inr v"
      by (intro stops_answered) (simp add: thrown_def)
    then have "stops_at_exception (thrown (fst (f x (snd (m s))))) (new1 @ new2)"
      using m2(4) by (rule stops_append)
    with m1 m2 b show ?thesis
      by (intro exI [of _ "new1 @ new2"]) (simp add: faithful_append)
  qed
qed

lemma orderly_if [orderly_intros]:
  "(c \<Longrightarrow> orderly w P a) \<Longrightarrow> (\<not> c \<Longrightarrow> orderly w P b) \<Longrightarrow> orderly w P (if c then a else b)"
  by simp

lemma orderly_case_prod [orderly_intros]:
  "(\<And>a b. orderly w P (f a b)) \<Longrightarrow> orderly w P (case_prod f x)"
  by (cases x) simp

lemma orderly_weaken:
  "orderly w P m \<Longrightarrow> (\<And>c. P c \<Longrightarrow> Q c) \<Longrightarrow> orderly w Q m"
  unfolding orderly_def list_all_iff by blast

lemma orderly_isPinned [orderly_intros]:
  "P GraphqlPinnedIssues \<Longrightarrow> orderly w P (isPinned w i)"
  unfolding isPinned_def by (intro orderly_intros)

lemma orderly_unpin [orderly_intros]:
  "P GraphqlPinnedIssues \<Longrightarrow> (\<And>i. P (GraphqlUnpinIssue i)) \<Longrightarrow> orderly w P (unpin w i)"
  unfolding unpin_def by (intro orderly_intros)

lemma orderly_pin [orderly_intros]:
  "(\<And>i. P (GraphqlPinIssue i)) \<Longrightarrow> orderly w P (pin w i)"
  unfolding pin_def by (intro orderly_intros)

lemma orderly_createNewIssue [orderly_intros]:
  "(\<And>t l a b. P (IssuesCreate t l a b)) \<Longrightarrow> orderly w P (createNewIssue w r)"
  unfolding createNewIssue_def by (intro orderly_intros)

lemma orderly_closeIssue [orderly_intros]:
  "(\<And>n. P (IssuesUpdateClosed n)) \<Longrightarrow> orderly w P (closeIssue w n)"
  unfolding closeIssue_def by (intro orderly_intros)

lemma orderly_makeLinkedComments [orderly_intros]:
  "(\<And>n b. P (IssuesCreateComment n b)) \<Longrightarrow> orderly w P (makeLinkedComments w a b)"
  unfolding makeLinkedComments_def by (intro orderly_intros)

lemma orderly_getPreviousIssue [orderly_intros]:
  "(\<And>l. P (IssuesListForRepo l)) \<Longrightarrow> orderly w P (getPreviousIssue w l)"
  unfolding getPreviousIssue_def by (intro orderly_intros)

lemma orderly_addIssueToProjectColumn [orderly_intros]:
  "P ProjectsListForRepo \<Longrightarrow> (\<And>p. P (ProjectsListColumns p)) \<Longrightarrow>
   (\<And>c i. P (ProjectsCreateCard c i)) \<Longrightarrow> orderly w P (addIssueToProjectColumn w i p c)"
  unfolding addIssueToProjectColumn_def by (intro orderly_intros)

lemma orderly_addIssueToMilestone [orderly_intros]:
  "(\<And>n m. P (IssuesUpdateMilestone n m)) \<Longrightarrow> orderly w P (addIssueToMilestone w n m)"
  unfolding addIssueToMilestone_def by (intro orderly_intros)

lemma orderly_run_rotate [orderly_intros]: "orderly w P (run_rotate r previous)"
  unfolding run_rotate_def by (intro orderly_intros)

lemma orderly_run_create:
  "(\<And>c. \<not> is_lookup c \<Longrightarrow> \<not> is_close_or_pin c \<Longrightarrow> P c) \<Longrightarrow> orderly w P (run_create w r previous)"
  unfolding run_create_def by (intro orderly_intros; simp)

lemma orderly_run_lookup:
  "(\<And>l. P (IssuesListForRepo l)) \<Longrightarrow> orderly w P (run_lookup w r)"
  unfolding run_lookup_def by (intro orderly_intros)

lemma orderly_run_close_previous:
  "(\<And>c. is_close_or_pin c \<Longrightarrow> P c) \<Longrightarrow> orderly w P (run_close_previous w r previous new)"
  unfolding run_close_previous_def by (intro orderly_intros; simp)

subsection \<open>Journalled actions\<close>

lemma ends_at_throw_quiet:
  "ends_at_throw None new \<Longrightarrow> \<forall>x\<in>set new. raises x = None"
  by (induction "None :: exn option" new rule: ends_at_throw.induct) auto

lemma ends_at_throw_append:
  "\<forall>x\<in>set a. raises x = None \<Longrightarrow> ends_at_throw t b \<Longrightarrow> ends_at_throw t (a @ b)"
proof (induction a)
  case Nil
  then show ?case by simp
next
  case (Cons x a)
  then have rest: "ends_at_throw t (a @ b)" by simp
  from Cons.prems have q: "raises x = None" by simp
  show ?case
  proof (cases "a @ b")
    case Nil
    with q Cons.prems(2) show ?thesis by simp
  next
    case (Cons y r)
    with q rest show ?thesis by simp
  qed
qed

lemma ends_at_throw_index:
  "ends_at_throw t new \<Longrightarrow> k < length new \<Longrightarrow> raises (new ! k) = Some e \<Longrightarrow>
   Suc k = length new \<and> t = Some e"
proof (induction t new arbitrary: k rule: ends_at_throw.induct)
  case (1 t)
  then show ?case by simp
next
  case (2 t x)
  then show ?case by simp
next
  case (3 t x y rest)
  show ?case
  proof (cases k)
    case 0
    with "3.prems" show ?thesis by simp
  next
    case (Suc k')
    with "3.prems" "3.IH" [of k'] show ?thesis by simp
  qed
qed

lemma ends_at_throw_last:
  "ends_at_throw (Some e) new \<Longrightarrow>
   \<exists>before thrower. new = before @ [thrower] \<and> raises thrower = Some e
      \<and> (\<forall>x\<in>set before. raises x = None)"
proof (induction "Some e" new rule: ends_at_throw.induct)
  case 1
  then show ?case by simp
next
  case (2 x)
  then show ?case by (intro exI [of _ "[]"] exI [of _ x]) simp
next
  case (3 x y rest)
  from "3.prems" have q: "raises x = None" and r: "ends_at_throw (Some e) (y # rest)"
    by simp_all
  from "3.hyps" [OF r] obtain before thrower where
    "y # rest = before @ [thrower]" "raises thrower = Some e" "\<forall>x\<in>set before. raises x = None"
    by auto
  with q show ?case
    by (intro exI [of _ "x # before"] exI [of _ thrower]) simp
qed

lemma requests_of_append: "requests_of (a @ b) = requests_of a @ requests_of b"
  by (induction a rule: requests_of.induct) auto

named_theorems journalled_intros

lemma journalled_returnM [journalled_intros]: "journalled (returnM x)"
  by (simp add: journalled_def returnM_def thrown_def)

lemma journalled_liftM [journalled_intros]: "journalled (liftM r)"
  by (cases r) (simp_all add: journalled_def liftM_def thrown_def)

lemma journalled_read_prop [journalled_intros]: "journalled (read_prop r k)"
  by (simp add: journalled_def read_prop_def thrown_def)

lemma journalled_write_prop [journalled_intros]: "journalled (write_prop r k v)"
  by (simp add: journalled_def write_prop_def thrown_def)

lemma journalled_object_assign_empty [journalled_intros]: "journalled (object_assign_empty r)"
  by (simp add: journalled_def object_assign_empty_def thrown_def)

lemma journalled_removeEmptyProps [journalled_intros]: "journalled (removeEmptyProps r)"
  by (simp add: journalled_def removeEmptyProps_def thrown_def)

lemma journalled_request [journalled_intros]: "journalled (request w c)"
  by (simp add: journalled_def request_def Let_def)

lemma journalled_bindM [journalled_intros]:
  assumes m: "journalled m" and f: "\<And>x. journalled (f x)"
  shows "journalled (bindM m f)"
  unfolding journalled_def
proof
  fix s
  from m obtain new1 where m1:
    "journal (snd (m s)) = journal s @ new1"
    "events (snd (m s)) = events s @ requests_of new1"
    "ends_at_throw (thrown (fst (m s))) new1"
    unfolding journalled_def by blast
  show "\<exists>new. journal (snd (bindM m f s)) = journal s @ new
          \<and> events (snd (bindM m f s)) = events s @ requests_of new
          \<and> ends_at_throw (thrown (fst (bindM m f s))) new"
  proof (cases "fst (m s)")
    case (Inl e)
    from bindM_Inl [of m s e f, OF this] m1 Inl show ?thesis
      by (intro exI [of _ new1]) (simp add: thrown_def)
  next
    case (Inr x)
    note b = bindM_Inr [of m s x f, OF this]
    from f [of x] obtain new2 where m2:
      "journal (snd (f x (snd (m s)))) = journal (snd (m s)) @ new2"
      "events (snd (f x (snd (m s)))) = events (snd (m s)) @ requests_of new2"
      "ends_at_throw (thrown (fst (f x (snd (m s))))) new2"
      unfolding journalled_def by blast
    from m1(3) Inr have "\<forall>x\<in>set new1. raises x = None"
      by (intro ends_at_throw_quiet) (simp add: thrown_def)
    then have "ends_at_throw (thrown (fst (f x (snd (m s))))) (new1 @ new2)"
      using m2(3) by (rule ends_at_throw_append)
    with m1 m2 b show ?thesis
      by (intro exI [of _ "new1 @ new2"]) (simp add: requests_of_append)
  qed
qed

lemma journalled_if [journalled_intros]:
  "(c \<Longrightarrow> journalled a) \<Longrightarrow> (\<not> c \<Longrightarrow> journalled b) \<Longrightarrow> journalled (if c then a else b)"
  by simp

lemma journalled_case_prod [journalled_intros]:
  "(\<And>a b. journalled (f a b)) \<Longrightarrow> journalled (case_prod f x)"
  by (cases x) simp

lemma journalled_isPinned [journalled_intros]: "journalled (isPinned w i)"
  unfolding isPinned_def by (intro journalled_intros)

lemma journalled_unpin [journalled_intros]: "journalled (unpin w i)"
  unfolding unpin_def by (intro journalled_intros)

lemma journalled_pin [journalled_intros]: "journalled (pin w i)"
  unfolding pin_def by (intro journalled_intros)

lemma journalled_createNewIssue [journalled_intros]: "journalled (createNewIssue w r)"
  unfolding createNewIssue_def by (intro journalled_intros)

lemma journalled_closeIssue [journalled_intros]: "journalled (closeIssue w n)"
  unfolding closeIssue_def by (intro journalled_intros)

lemma journalled_makeLinkedComments [journalled_intros]:
  "journalled (makeLinkedComments w a b)"
  unfolding makeLinkedComments_def by (intro journalled_intros)

lemma journalled_getPreviousIssue [journalled_intros]: "journalled (getPreviousIssue w l)"
  unfolding getPreviousIssue_def by (intro journalled_intros)

lemma journalled_addIssueToProjectColumn [journalled_intros]:
  "journalled (addIssueToProjectColumn w i p c)"
  unfolding addIssueToProjectColumn_def by (intro journalled_intros)

lemma journalled_addIssueToMilestone [journalled_intros]:
  "journalled (addIssueToMilestone w n m)"
  unfolding addIssueToMilestone_def by (intro journalled_intros)

lemma journalled_run_lookup [journalled_intros]: "journalled (run_lookup w r)"
  unfolding run_lookup_def by (intro journalled_intros)

lemma journalled_run_rotate [journalled_intros]: "journalled (run_rotate r previous)"
  unfolding run_rotate_def by (intro journalled_intros)

lemma journalled_run_create [journalled_intros]: "journalled (run_create w r previous)"
  unfolding run_create_def by (intro journalled_intros)

lemma journalled_run_close_previous [journalled_intros]:
  "journalled (run_close_previous w r previous new)"
  unfolding run_close_previous_def by (intro journalled_intros)

lemma journalled_run_steps: "journalled (run_steps w r)"
  unfolding run_steps_def by (intro journalled_intros)

lemma journalled_noted:
  assumes "journalled m"
  shows "journal (snd (m s)) = journal s @ noted s (snd (m s))"
    and "events (snd (m s)) = events s @ requests_of (noted s (snd (m s)))"
    and "ends_at_throw (thrown (fst (m s))) (noted s (snd (m s)))"
proof -
  from assms obtain new where n:
    "journal (snd (m s)) = journal s @ new"
    "events (snd (m s)) = events s @ requests_of new"
    "ends_at_throw (thrown (fst (m s))) new"
    unfolding journalled_def by blast
  then have a: "noted s (snd (m s)) = new" by (simp add: noted_def)
  show "journal (snd (m s)) = journal s @ noted s (snd (m s))" using n a by simp
  show "events (snd (m s)) = events s @ requests_of (noted s (snd (m s)))" using n a by simp
  show "ends_at_throw (thrown (fst (m s))) (noted s (snd (m s)))" using n a by simp
qed

subsection \<open>The run and its steps\<close>

lemma orderly_run_steps:
  "orderly w (\<lambda>c. True) (run_steps w r)"
  unfolding run_steps_def
  by (intro orderly_intros orderly_run_lookup orderly_run_create orderly_run_close_previous) simp_all

lemma orderly_events:
  assumes "orderly w P m"
  shows "events (snd (m s)) = events s @ added s (snd (m s))"
    and "list_all (\<lambda>ev. P (fst ev)) (added s (snd (m s)))"
    and "faithful w (events s) (added s (snd (m s)))"
    and "stops_at_exception (thrown (fst (m s))) (added s (snd (m s)))"
    and "host_output (snd (m s)) = host_output s"
    and "host_failure (snd (m s)) = host_failure s"
proof -
  from assms obtain new where n:
    "events (snd (m s)) = events s @ new" "list_all (\<lambda>ev. P (fst ev)) new"
    "faithful w (events s) new" "stops_at_exception (thrown (fst (m s))) new"
    "host_output (snd (m s)) = host_output s" "host_failure (snd (m s)) = host_failure s"
    unfolding orderly_def by blast
  then have a: "added s (snd (m s)) = new" by (simp add: added_def)
  show "events (snd (m s)) = events s @ added s (snd (m s))" using n a by simp
  show "list_all (\<lambda>ev. P (fst ev)) (added s (snd (m s)))" using n a by simp
  show "faithful w (events s) (added s (snd (m s)))" using n a by simp
  show "stops_at_exception (thrown (fst (m s))) (added s (snd (m s)))" using n a by simp
  show "host_output (snd (m s)) = host_output s" using n by simp
  show "host_failure (snd (m s)) = host_failure s" using n by simp
qed

lemma orderly_silent:
  "orderly w (\<lambda>c. False) m \<Longrightarrow> events (snd (m s)) = events s"
  using orderly_events(1,2) [of w "\<lambda>c. False" m s]
  by (cases "added s (snd (m s))") auto

lemma run_failed:
  "fst (run_steps w i s) = Inl e \<Longrightarrow>
   run w i s = (Inr (), (snd (run_steps w i s))
                 \<lparr>host_failure := Some (''Error encountered: '' @ describe e @ ''.''),
                  journal := journal (snd (run_steps w i s))
                    @ [FailureSet (''Error encountered: '' @ describe e @ ''.'')]\<rparr>)"
  by (simp add: run_def catchM_def run_body_def bindM_Inl setFailed_def)

lemma run_succeeded:
  "fst (run_steps w i s) = Inr n \<Longrightarrow>
   run w i s = (Inr (), (if truthy (newIssueNumber n)
                         then (snd (run_steps w i s))
                                \<lparr>host_output := Some (to_string (newIssueNumber n)),
                                 journal := journal (snd (run_steps w i s))
                                   @ [OutputSet (to_string (newIssueNumber n))]\<rparr>
                         else snd (run_steps w i s)))"
  by (simp add: run_def catchM_def run_body_def bindM_Inr run_output_def setOutput_def returnM_def)

lemma run_events: "events (snd (run w i s)) = events (snd (run_steps w i s))"
  by (cases "fst (run_steps w i s)") (simp_all add: run_failed run_succeeded)

lemma run_added: "added s (snd (run w i s)) = added s (snd (run_steps w i s))"
  by (simp add: added_def run_events)

lemma noted_append: "journal s' = journal s @ new \<Longrightarrow> noted s s' = new"
  by (simp add: noted_def)

lemma run_noted_failed:
  assumes "fst (run_steps w i s) = Inl e"
  shows "noted s (snd (run w i s)) =
           noted s (snd (run_steps w i s))
           @ [FailureSet (''Error encountered: '' @ describe e @ ''.'')]"
proof (rule noted_append)
  show "journal (snd (run w i s)) = journal s @ noted s (snd (run_steps w i s))
           @ [FailureSet (''Error encountered: '' @ describe e @ ''.'')]"
    using journalled_noted(1) [OF journalled_run_steps, of w i s]
    by (simp add: run_failed [OF assms])
qed

lemma run_noted_succeeded:
  assumes "fst (run_steps w i s) = Inr n"
  shows "noted s (snd (run w i s)) =
           noted s (snd (run_steps w i s))
           @ (if truthy (newIssueNumber n) then [OutputSet (to_string (newIssueNumber n))] else [])"
proof (rule noted_append)
  show "journal (snd (run w i s)) = journal s @ noted s (snd (run_steps w i s))
           @ (if truthy (newIssueNumber n) then [OutputSet (to_string (newIssueNumber n))] else [])"
    using journalled_noted(1) [OF journalled_run_steps, of w i s]
    by (simp add: run_succeeded [OF assms])
qed

lemma run_journal_extends:
  "journal (snd (run w i s)) = journal s @ noted s (snd (run w i s))"
proof (cases "fst (run_steps w i s)")
  case (Inl e)
  show ?thesis
    unfolding run_noted_failed [OF Inl]
    using journalled_noted(1) [OF journalled_run_steps, of w i s]
    by (simp add: run_failed [OF Inl])
next
  case (Inr n)
  show ?thesis
    unfolding run_noted_succeeded [OF Inr]
    using journalled_noted(1) [OF journalled_run_steps, of w i s]
    by (simp add: run_succeeded [OF Inr])
qed

lemma run_journal_requests:
  "requests_of (noted s (snd (run w i s))) = added s (snd (run w i s))"
proof -
  have "events (snd (run_steps w i s)) = events s @ requests_of (noted s (snd (run_steps w i s)))"
    by (rule journalled_noted(2) [OF journalled_run_steps])
  then have a: "added s (snd (run w i s)) = requests_of (noted s (snd (run_steps w i s)))"
    unfolding run_added by (simp add: added_def)
  show ?thesis
  proof (cases "fst (run_steps w i s)")
    case (Inl e)
    show ?thesis unfolding run_noted_failed [OF Inl] a by (simp add: requests_of_append)
  next
    case (Inr n)
    show ?thesis unfolding run_noted_succeeded [OF Inr] a by (simp add: requests_of_append)
  qed
qed

lemma run_journal_thrown:
  assumes "fst (run_steps w i s) = Inl e"
  shows "\<exists>before thrower.
           noted s (snd (run w i s)) =
             before @ [thrower, FailureSet (''Error encountered: '' @ describe e @ ''.'')]
           \<and> raises thrower = Some e \<and> (\<forall>x\<in>set before. raises x = None)"
proof -
  have "ends_at_throw (Some e) (noted s (snd (run_steps w i s)))"
    using journalled_noted(3) [OF journalled_run_steps, of w i s] assms
    by (simp add: thrown_def)
  from ends_at_throw_last [OF this] obtain before thrower where
    "noted s (snd (run_steps w i s)) = before @ [thrower]" "raises thrower = Some e"
    "\<forall>x\<in>set before. raises x = None"
    by blast
  then show ?thesis
    unfolding run_noted_failed [OF assms]
    by (intro exI [of _ before] exI [of _ thrower]) simp
qed

lemma run_journal_quiet:
  assumes "fst (run_steps w i s) = Inr n"
  shows "\<forall>x\<in>set (noted s (snd (run w i s))). raises x = None"
proof -
  have e: "ends_at_throw None (noted s (snd (run_steps w i s)))"
    using journalled_noted(3) [OF journalled_run_steps, of w i s] assms
    by (simp add: thrown_def)
  then have q: "\<forall>x\<in>set (noted s (snd (run_steps w i s))). raises x = None"
    by (rule ends_at_throw_quiet)
  show ?thesis
    unfolding run_noted_succeeded [OF assms] using q by auto
qed

lemma run_journal_index:
  assumes k: "k < length (noted s (snd (run w i s)))"
      and r: "raises (noted s (snd (run w i s)) ! k) = Some e"
  shows "fst (run_steps w i s) = Inl e
       \<and> Suc (Suc k) = length (noted s (snd (run w i s)))
       \<and> noted s (snd (run w i s)) ! Suc k
           = FailureSet (''Error encountered: '' @ describe e @ ''.'')"
proof (cases "fst (run_steps w i s)")
  case (Inr n)
  from run_journal_quiet [OF Inr] k have "raises (noted s (snd (run w i s)) ! k) = None"
    by simp
  with r show ?thesis by simp
next
  case (Inl e')
  from run_journal_thrown [OF Inl] obtain before thrower where
    j: "noted s (snd (run w i s)) =
          before @ [thrower, FailureSet (''Error encountered: '' @ describe e' @ ''.'')]"
    and t: "raises thrower = Some e'" and q: "\<forall>x\<in>set before. raises x = None"
    by blast
  have "k = length before"
  proof (rule ccontr)
    assume n: "k \<noteq> length before"
    show False
    proof (cases "k < length before")
      case True
      then have "noted s (snd (run w i s)) ! k = before ! k"
        unfolding j by (simp add: nth_append)
      with q True r show False by simp
    next
      case False
      with n k have "k = Suc (length before)" unfolding j by simp
      then have "noted s (snd (run w i s)) ! k
          = FailureSet (''Error encountered: '' @ describe e' @ ''.'')"
        unfolding j by (simp add: nth_append)
      with r show False by simp
    qed
  qed
  then have "noted s (snd (run w i s)) ! k = thrower"
    and "Suc (Suc k) = length (noted s (snd (run w i s)))"
    and "noted s (snd (run w i s)) ! Suc k
          = FailureSet (''Error encountered: '' @ describe e' @ ''.'')"
    unfolding j by (simp_all add: nth_append)
  with r t Inl show ?thesis by simp
qed

text \<open>
  Claim C8. Whatever the world answers, \<^verbatim>\<open>run\<close> returns normally: no exception reaches
  its caller. Every answer in its events is the world's. If a request is answered by an
  exception, that request is the last event of the run (no later step is executed, the
  output is not set) and the failure reported to the host is
  \<^verbatim>\<open>Error encountered: <description>.\<close> with that exception's description. The same holds
  for any exception that ends lines 284 to 321, such as a \<^verbatim>\<open>TypeError\<close> on a malformed
  answer; and without an exception no failure is reported.

  The journal says it step by step, for an exception the program raises itself as for one
  a request is answered with: wherever in the run an exception arises, the only thing the
  run does after it is the report of that exception to the host. No request, no write and
  no output follows, and nothing before it raised. The requests in the journal are the
  events, in order.
\<close>

theorem run_stops_at_exception:
  "(let s' = snd (run w inputs s); new = added s s'; entries = noted s s' in
      fst (run w inputs s) = Inr ()
    \<and> events s' = events s @ new
    \<and> faithful w (events s) new
    \<and> (\<forall>k<length new. \<forall>e. snd (new ! k) = Inl e \<longrightarrow>
          Suc k = length new
          \<and> host_failure s' = Some (''Error encountered: '' @ describe e @ ''.'')
          \<and> host_output s' = host_output s)
    \<and> (\<forall>e. fst (run_steps w inputs s) = Inl e \<longrightarrow>
          events s' = events (snd (run_steps w inputs s))
          \<and> host_failure s' = Some (''Error encountered: '' @ describe e @ ''.'')
          \<and> host_output s' = host_output s)
    \<and> (\<forall>n. fst (run_steps w inputs s) = Inr n \<longrightarrow> host_failure s' = host_failure s)
    \<and> journal s' = journal s @ entries
    \<and> requests_of entries = new
    \<and> (\<forall>k<length entries. \<forall>e. raises (entries ! k) = Some e \<longrightarrow>
          fst (run_steps w inputs s) = Inl e
          \<and> Suc (Suc k) = length entries
          \<and> entries ! Suc k = FailureSet (''Error encountered: '' @ describe e @ ''.''))
    \<and> (\<forall>e. fst (run_steps w inputs s) = Inl e \<longrightarrow>
          (\<exists>before thrower.
              entries = before @ [thrower, FailureSet (''Error encountered: '' @ describe e @ ''.'')]
              \<and> raises thrower = Some e \<and> (\<forall>x\<in>set before. raises x = None)))
    \<and> (\<forall>n. fst (run_steps w inputs s) = Inr n \<longrightarrow> (\<forall>x\<in>set entries. raises x = None)))"
proof -
  note o = orderly_events [OF orderly_run_steps [of w inputs], where s = s]
  have ret: "fst (run w inputs s) = Inr ()"
    by (cases "fst (run_steps w inputs s)") (simp_all add: run_failed run_succeeded)
  have ev: "events (snd (run w inputs s)) = events s @ added s (snd (run w inputs s))"
    using o(1) by (simp add: run_events run_added)
  have fa: "faithful w (events s) (added s (snd (run w inputs s)))"
    using o(3) by (simp add: run_added)
  have thrown_case: "events (snd (run w inputs s)) = events (snd (run_steps w inputs s))
      \<and> host_failure (snd (run w inputs s)) = Some (''Error encountered: '' @ describe e @ ''.'')
      \<and> host_output (snd (run w inputs s)) = host_output s"
    if "fst (run_steps w inputs s) = Inl e" for e
    using that o(5) by (simp add: run_failed)
  have at_k: "Suc k = length (added s (snd (run w inputs s)))
      \<and> host_failure (snd (run w inputs s)) = Some (''Error encountered: '' @ describe e @ ''.'')
      \<and> host_output (snd (run w inputs s)) = host_output s"
    if k: "k < length (added s (snd (run w inputs s)))"
      and e: "snd (added s (snd (run w inputs s)) ! k) = Inl e" for k e
  proof -
    from stops_index [OF o(4)] k e
    have l: "Suc k = length (added s (snd (run_steps w inputs s)))"
      and t: "thrown (fst (run_steps w inputs s)) = Some e"
      by (simp_all add: run_added)
    from t have "fst (run_steps w inputs s) = Inl e"
      by (simp add: thrown_def split: sum.splits)
    from thrown_case [OF this] l show ?thesis by (simp add: run_added)
  qed
  have ok: "host_failure (snd (run w inputs s)) = host_failure s"
    if "fst (run_steps w inputs s) = Inr n" for n
    using that o(6) by (simp add: run_succeeded)
  have events_part: "fst (run w inputs s) = Inr ()
    \<and> events (snd (run w inputs s)) = events s @ added s (snd (run w inputs s))
    \<and> faithful w (events s) (added s (snd (run w inputs s)))
    \<and> (\<forall>k<length (added s (snd (run w inputs s))).
          \<forall>e. snd (added s (snd (run w inputs s)) ! k) = Inl e \<longrightarrow>
          Suc k = length (added s (snd (run w inputs s)))
          \<and> host_failure (snd (run w inputs s))
              = Some (''Error encountered: '' @ describe e @ ''.'')
          \<and> host_output (snd (run w inputs s)) = host_output s)
    \<and> (\<forall>e. fst (run_steps w inputs s) = Inl e \<longrightarrow>
          events (snd (run w inputs s)) = events (snd (run_steps w inputs s))
          \<and> host_failure (snd (run w inputs s))
              = Some (''Error encountered: '' @ describe e @ ''.'')
          \<and> host_output (snd (run w inputs s)) = host_output s)
    \<and> (\<forall>n. fst (run_steps w inputs s) = Inr n \<longrightarrow>
          host_failure (snd (run w inputs s)) = host_failure s)"
    using ret ev fa thrown_case at_k ok by blast
  have journal_part: "journal (snd (run w inputs s)) = journal s @ noted s (snd (run w inputs s))
    \<and> requests_of (noted s (snd (run w inputs s))) = added s (snd (run w inputs s))
    \<and> (\<forall>k<length (noted s (snd (run w inputs s))).
          \<forall>e. raises (noted s (snd (run w inputs s)) ! k) = Some e \<longrightarrow>
          fst (run_steps w inputs s) = Inl e
          \<and> Suc (Suc k) = length (noted s (snd (run w inputs s)))
          \<and> noted s (snd (run w inputs s)) ! Suc k
              = FailureSet (''Error encountered: '' @ describe e @ ''.''))
    \<and> (\<forall>e. fst (run_steps w inputs s) = Inl e \<longrightarrow>
          (\<exists>before thrower.
              noted s (snd (run w inputs s))
                = before @ [thrower, FailureSet (''Error encountered: '' @ describe e @ ''.'')]
              \<and> raises thrower = Some e \<and> (\<forall>x\<in>set before. raises x = None)))
    \<and> (\<forall>n. fst (run_steps w inputs s) = Inr n \<longrightarrow>
          (\<forall>x\<in>set (noted s (snd (run w inputs s))). raises x = None))"
  proof (intro conjI allI impI)
    show "journal (snd (run w inputs s)) = journal s @ noted s (snd (run w inputs s))"
      by (rule run_journal_extends)
    show "requests_of (noted s (snd (run w inputs s))) = added s (snd (run w inputs s))"
      by (rule run_journal_requests)
  next
    fix k e
    assume "k < length (noted s (snd (run w inputs s)))"
      and "raises (noted s (snd (run w inputs s)) ! k) = Some e"
    from run_journal_index [OF this]
    show "fst (run_steps w inputs s) = Inl e"
      and "Suc (Suc k) = length (noted s (snd (run w inputs s)))"
      and "noted s (snd (run w inputs s)) ! Suc k
              = FailureSet (''Error encountered: '' @ describe e @ ''.'')"
      by simp_all
  next
    fix e assume "fst (run_steps w inputs s) = Inl e"
    then show "\<exists>before thrower.
              noted s (snd (run w inputs s))
                = before @ [thrower, FailureSet (''Error encountered: '' @ describe e @ ''.'')]
              \<and> raises thrower = Some e \<and> (\<forall>x\<in>set before. raises x = None)"
      by (rule run_journal_thrown)
  next
    fix n assume "fst (run_steps w inputs s) = Inr n"
    then show "\<forall>x\<in>set (noted s (snd (run w inputs s))). raises x = None"
      by (rule run_journal_quiet)
  qed
  show ?thesis
    unfolding Let_def using events_part journal_part by (intro conjI) (elim conjE, assumption)+
qed

subsection \<open>The previous-issue lookup\<close>

lemma run_lookup_skipped:
  "\<not> needPreviousIssue [obj_get (heap s i) ''pinned'', obj_get (heap s i) ''closePrevious'',
       obj_get (heap s i) ''rotateAssignees'', obj_get (heap s i) ''linkedComments''] \<Longrightarrow>
   run_lookup w i s =
     (Inr \<lparr>previousIssueNumber = JNum (- 1), previousIssueNodeId = JUndefined,
           previousAssignees = JUndefined\<rparr>, s)"
  by (simp add: run_lookup_def bindM_def read_prop_def returnM_def)

lemma run_lookup_made:
  "needPreviousIssue [obj_get (heap s i) ''pinned'', obj_get (heap s i) ''closePrevious'',
       obj_get (heap s i) ''rotateAssignees'', obj_get (heap s i) ''linkedComments''] \<Longrightarrow>
   run_lookup w i s = getPreviousIssue w (obj_get (heap s i) ''labels'') s"
  by (simp add: run_lookup_def bindM_def read_prop_def)

lemma request_then_silent:
  assumes "\<And>x. orderly w (\<lambda>c. False) (f x)"
  shows "events (snd (bindM (request w c) f s)) = events s @ [(c, w (events s) c)]"
proof (cases "w (events s) c")
  case (Inl e)
  then have "fst (request w c s) = Inl e" by (simp add: request_def Let_def)
  from bindM_Inl [of "request w c" s e f, OF this] show ?thesis by (simp add: request_def Let_def)
next
  case (Inr x)
  then have "fst (request w c s) = Inr x" by (simp add: request_def Let_def)
  from bindM_Inr [of "request w c" s x f, OF this] orderly_silent [OF assms, of x] show ?thesis
    by (simp add: request_def Let_def)
qed

lemma getPreviousIssue_events:
  "events (snd (getPreviousIssue w l s)) =
     events s @ [(IssuesListForRepo l, w (events s) (IssuesListForRepo l))]"
  unfolding getPreviousIssue_def
  by (rule request_then_silent) (intro orderly_intros)

lemma close_or_pin_not_lookup: "is_close_or_pin c \<Longrightarrow> \<not> is_lookup c"
  by (cases c) auto

lemma orderly_after_lookup:
  "orderly w (\<lambda>c. \<not> is_lookup c)
     (bindM (run_create w i p) (\<lambda>new.
      bindM (run_close_previous w i p new) (\<lambda>_. returnM new)))"
  by (intro orderly_intros orderly_run_create orderly_run_close_previous)
     (auto dest: close_or_pin_not_lookup)

lemma run_steps_without_lookup:
  assumes "\<not> needPreviousIssue [obj_get (heap s i) ''pinned'', obj_get (heap s i) ''closePrevious'',
       obj_get (heap s i) ''rotateAssignees'', obj_get (heap s i) ''linkedComments'']"
  shows "list_all (\<lambda>ev. \<not> is_lookup (fst ev)) (added s (snd (run_steps w i s)))"
proof -
  have "run_steps w i s =
      bindM (run_create w i \<lparr>previousIssueNumber = JNum (- 1), previousIssueNodeId = JUndefined,
           previousAssignees = JUndefined\<rparr>) (\<lambda>new.
      bindM (run_close_previous w i \<lparr>previousIssueNumber = JNum (- 1), previousIssueNodeId = JUndefined,
           previousAssignees = JUndefined\<rparr> new) (\<lambda>_. returnM new)) s"
    unfolding run_steps_def
    by (simp add: bindM_def [of "run_lookup w i"] run_lookup_skipped [OF assms])
  then show ?thesis
    using orderly_events(2) [OF orderly_after_lookup, where s = s] by simp
qed

lemma run_steps_with_lookup:
  assumes "needPreviousIssue [obj_get (heap s i) ''pinned'', obj_get (heap s i) ''closePrevious'',
       obj_get (heap s i) ''rotateAssignees'', obj_get (heap s i) ''linkedComments'']"
  shows "\<exists>rest. added s (snd (run_steps w i s)) =
            (IssuesListForRepo (obj_get (heap s i) ''labels''),
             w (events s) (IssuesListForRepo (obj_get (heap s i) ''labels''))) # rest
          \<and> list_all (\<lambda>ev. \<not> is_lookup (fst ev)) rest"
proof -
  let ?ev = "(IssuesListForRepo (obj_get (heap s i) ''labels''),
             w (events s) (IssuesListForRepo (obj_get (heap s i) ''labels'')))"
  let ?s1 = "snd (run_lookup w i s)"
  have e1: "events ?s1 = events s @ [?ev]"
    by (simp add: run_lookup_made [OF assms] getPreviousIssue_events)
  show ?thesis
  proof (cases "fst (run_lookup w i s)")
    case (Inl e)
    have "run_steps w i s = (Inl e, ?s1)"
      unfolding run_steps_def using Inl by (simp add: bindM_Inl [of "run_lookup w i"])
    with e1 show ?thesis by (simp add: added_def)
  next
    case (Inr p)
    let ?rest = "bindM (run_create w i p) (\<lambda>new.
        bindM (run_close_previous w i p new) (\<lambda>_. returnM new))"
    have r: "run_steps w i s = ?rest ?s1"
      unfolding run_steps_def using Inr by (simp add: bindM_Inr [of "run_lookup w i"])
    note o = orderly_events(1,2) [OF orderly_after_lookup [of w i p], where s = ?s1]
    have "events (snd (run_steps w i s)) = events s @ ?ev # added ?s1 (snd (?rest ?s1))"
      using o(1) e1 r by simp
    then have "added s (snd (run_steps w i s)) = ?ev # added ?s1 (snd (?rest ?s1))"
      by (simp add: added_def)
    with o(2) show ?thesis by blast
  qed
qed

text \<open>
  Claim C7. \<^verbatim>\<open>run\<close> sends the previous-issue query if and only if one of \<^verbatim>\<open>pinned\<close>,
  \<^verbatim>\<open>closePrevious\<close>, \<^verbatim>\<open>rotateAssignees\<close>, \<^verbatim>\<open>linkedComments\<close> is \<^verbatim>\<open>true\<close>; with all
  four \<^verbatim>\<open>false\<close> no such query is among the events. When it is sent, it is the first
  request, with the labels of the inputs, and it is sent once.
\<close>

theorem run_lookup_iff_flag:
  "(let new = added s (snd (run w inputs s));
        pinned = obj_get (heap s inputs) ''pinned'';
        closePrevious = obj_get (heap s inputs) ''closePrevious'';
        rotateAssignees = obj_get (heap s inputs) ''rotateAssignees'';
        linkedComments = obj_get (heap s inputs) ''linkedComments''
    in ((\<exists>ev\<in>set new. is_lookup (fst ev)) \<longleftrightarrow>
          pinned = JBool True \<or> closePrevious = JBool True
          \<or> rotateAssignees = JBool True \<or> linkedComments = JBool True)
     \<and> (pinned = JBool False \<and> closePrevious = JBool False
          \<and> rotateAssignees = JBool False \<and> linkedComments = JBool False \<longrightarrow>
          \<not> (\<exists>ev\<in>set new. is_lookup (fst ev)))
     \<and> ((\<exists>ev\<in>set new. is_lookup (fst ev)) \<longrightarrow>
          new \<noteq> [] \<and> fst (hd new) = IssuesListForRepo (obj_get (heap s inputs) ''labels'')
          \<and> \<not> (\<exists>ev\<in>set (tl new). is_lookup (fst ev))))"
proof (cases "needPreviousIssue [obj_get (heap s inputs) ''pinned'',
       obj_get (heap s inputs) ''closePrevious'', obj_get (heap s inputs) ''rotateAssignees'',
       obj_get (heap s inputs) ''linkedComments'']")
  case True
  from run_steps_with_lookup [OF True, of w] obtain rest where
    "added s (snd (run w inputs s)) =
       (IssuesListForRepo (obj_get (heap s inputs) ''labels''),
        w (events s) (IssuesListForRepo (obj_get (heap s inputs) ''labels''))) # rest"
    "list_all (\<lambda>ev. \<not> is_lookup (fst ev)) rest"
    unfolding run_added by blast
  moreover from True have "obj_get (heap s inputs) ''pinned'' = JBool True
      \<or> obj_get (heap s inputs) ''closePrevious'' = JBool True
      \<or> obj_get (heap s inputs) ''rotateAssignees'' = JBool True
      \<or> obj_get (heap s inputs) ''linkedComments'' = JBool True"
    by (auto simp: needPreviousIssue_iff)
  ultimately show ?thesis
    by (auto simp: Let_def list_all_iff)
next
  case False
  from run_steps_without_lookup [OF False, of w]
  have "list_all (\<lambda>ev. \<not> is_lookup (fst ev)) (added s (snd (run w inputs s)))"
    unfolding run_added .
  moreover from False have "\<not> (obj_get (heap s inputs) ''pinned'' = JBool True
      \<or> obj_get (heap s inputs) ''closePrevious'' = JBool True
      \<or> obj_get (heap s inputs) ''rotateAssignees'' = JBool True
      \<or> obj_get (heap s inputs) ''linkedComments'' = JBool True)"
    by (auto simp: needPreviousIssue_iff)
  ultimately show ?thesis
    by (auto simp: Let_def list_all_iff)
qed

text \<open>
  Claim C9. \<^verbatim>\<open>needPreviousIssue\<close> is true if and only if one of its arguments is the
  boolean \<^verbatim>\<open>true\<close>: the string \<^verbatim>\<open>"true"\<close>, the number 1, an array or an object do not
  count. A run none of whose four flags is the boolean \<^verbatim>\<open>true\<close>, truthy or not, sends no
  previous-issue query.
\<close>

theorem needPreviousIssue_strict:
  "(needPreviousIssue conditions \<longleftrightarrow> (\<exists>c\<in>set conditions. c = JBool True))
   \<and> \<not> needPreviousIssue [JStr ''true'', JNum 1, JArr [], JObj [(''a'', JBool True)]]
   \<and> (obj_get (heap s inputs) ''pinned'' \<noteq> JBool True
      \<and> obj_get (heap s inputs) ''closePrevious'' \<noteq> JBool True
      \<and> obj_get (heap s inputs) ''rotateAssignees'' \<noteq> JBool True
      \<and> obj_get (heap s inputs) ''linkedComments'' \<noteq> JBool True \<longrightarrow>
      list_all (\<lambda>ev. \<not> is_lookup (fst ev)) (added s (snd (run w inputs s))))"
proof (intro conjI impI)
  show "needPreviousIssue conditions \<longleftrightarrow> (\<exists>c\<in>set conditions. c = JBool True)"
    by (auto simp: needPreviousIssue_iff)
  show "\<not> needPreviousIssue [JStr ''true'', JNum 1, JArr [], JObj [(''a'', JBool True)]]"
    by (simp add: needPreviousIssue_iff)
next
  assume "obj_get (heap s inputs) ''pinned'' \<noteq> JBool True
      \<and> obj_get (heap s inputs) ''closePrevious'' \<noteq> JBool True
      \<and> obj_get (heap s inputs) ''rotateAssignees'' \<noteq> JBool True
      \<and> obj_get (heap s inputs) ''linkedComments'' \<noteq> JBool True"
  then have "\<not> needPreviousIssue [obj_get (heap s inputs) ''pinned'',
       obj_get (heap s inputs) ''closePrevious'', obj_get (heap s inputs) ''rotateAssignees'',
       obj_get (heap s inputs) ''linkedComments'']"
    by (auto simp: needPreviousIssue_iff)
  from run_steps_without_lookup [OF this, of w]
  show "list_all (\<lambda>ev. \<not> is_lookup (fst ev)) (added s (snd (run w inputs s)))"
    unfolding run_added .
qed

subsection \<open>The heap\<close>

named_theorems untouched_intros

lemma untouched_returnM [untouched_intros]: "heap_untouched (returnM x)"
  by (simp add: heap_untouched_def returnM_def)

lemma untouched_liftM [untouched_intros]: "heap_untouched (liftM r)"
  by (simp add: heap_untouched_def liftM_def split: sum.splits)

lemma untouched_read_prop [untouched_intros]: "heap_untouched (read_prop r k)"
  by (simp add: heap_untouched_def read_prop_def)

lemma untouched_request [untouched_intros]: "heap_untouched (request w c)"
  by (simp add: heap_untouched_def request_def Let_def)

lemma untouched_bindM [untouched_intros]:
  assumes "heap_untouched m" and "\<And>x. heap_untouched (f x)"
  shows "heap_untouched (bindM m f)"
  unfolding heap_untouched_def
proof
  fix s
  show "heap (snd (bindM m f s)) = heap s \<and> next_ref (snd (bindM m f s)) = next_ref s"
  proof (cases "fst (m s)")
    case (Inl e)
    from bindM_Inl [of m s e f, OF this] assms(1) show ?thesis
      by (simp add: heap_untouched_def)
  next
    case (Inr x)
    from bindM_Inr [of m s x f, OF this] assms(1) assms(2) [of x] show ?thesis
      by (simp add: heap_untouched_def)
  qed
qed

lemma untouched_if [untouched_intros]:
  "(c \<Longrightarrow> heap_untouched a) \<Longrightarrow> (\<not> c \<Longrightarrow> heap_untouched b) \<Longrightarrow>
   heap_untouched (if c then a else b)"
  by simp

lemma untouched_case_prod [untouched_intros]:
  "(\<And>a b. heap_untouched (f a b)) \<Longrightarrow> heap_untouched (case_prod f x)"
  by (cases x) simp

lemma untouched_isPinned [untouched_intros]: "heap_untouched (isPinned w i)"
  unfolding isPinned_def by (intro untouched_intros)

lemma untouched_unpin [untouched_intros]: "heap_untouched (unpin w i)"
  unfolding unpin_def by (intro untouched_intros)

lemma untouched_pin [untouched_intros]: "heap_untouched (pin w i)"
  unfolding pin_def by (intro untouched_intros)

lemma untouched_closeIssue [untouched_intros]: "heap_untouched (closeIssue w n)"
  unfolding closeIssue_def by (intro untouched_intros)

lemma untouched_makeLinkedComments [untouched_intros]:
  "heap_untouched (makeLinkedComments w a b)"
  unfolding makeLinkedComments_def by (intro untouched_intros)

lemma untouched_getPreviousIssue [untouched_intros]: "heap_untouched (getPreviousIssue w l)"
  unfolding getPreviousIssue_def by (intro untouched_intros)

lemma untouched_addIssueToProjectColumn [untouched_intros]:
  "heap_untouched (addIssueToProjectColumn w i p c)"
  unfolding addIssueToProjectColumn_def by (intro untouched_intros)

lemma untouched_addIssueToMilestone [untouched_intros]:
  "heap_untouched (addIssueToMilestone w n m)"
  unfolding addIssueToMilestone_def by (intro untouched_intros)

lemma untouched_run_lookup: "heap_untouched (run_lookup w i)"
  unfolding run_lookup_def by (intro untouched_intros)

lemma bindM_object_assign_empty:
  "bindM (object_assign_empty r) f s = f (next_ref s) (snd (object_assign_empty r s))"
  by (simp add: bindM_def object_assign_empty_def)

lemma bindM_removeEmptyProps:
  "bindM (removeEmptyProps r) f s = f r (snd (removeEmptyProps r s))"
  by (simp add: bindM_def removeEmptyProps_def)

lemma createNewIssue_heap:
  "heap (snd (createNewIssue w options s)) =
     (heap s)(next_ref s := removeEmptyProps_obj (heap s options))
   \<and> next_ref (snd (createNewIssue w options s)) = Suc (next_ref s)"
proof -
  let ?s2 = "snd (removeEmptyProps (next_ref s) (snd (object_assign_empty options s)))"
  let ?tail = "\<lambda>options.
     bindM (read_prop options ''title'') (\<lambda>title.
     bindM (read_prop options ''labels'') (\<lambda>labels.
     bindM (read_prop options ''assignees'') (\<lambda>assignees.
     bindM (read_prop options ''body'') (\<lambda>body.
     bindM (request w (IssuesCreate title labels assignees body)) (\<lambda>response.
     bindM (liftM (get_prop (if truthy response then response else JObj []) ''data'')) (\<lambda>data.
     bindM (liftM (get_prop data ''number'')) (\<lambda>number.
     bindM (liftM (get_prop data ''id'')) (\<lambda>ident.
     bindM (liftM (get_prop data ''node_id'')) (\<lambda>node_id.
     returnM \<lparr>newIssueNumber = to_number number, newIssueId = ident,
              newIssueNodeId = node_id\<rparr>)))))))))"
  have "createNewIssue w options s = ?tail (next_ref s) ?s2"
    unfolding createNewIssue_def
    by (simp only: bindM_object_assign_empty bindM_removeEmptyProps)
  moreover have "heap_untouched (?tail (next_ref s))"
    by (intro untouched_intros)
  ultimately have "heap (snd (createNewIssue w options s)) = heap ?s2"
    and "next_ref (snd (createNewIssue w options s)) = next_ref ?s2"
    by (simp_all add: heap_untouched_def)
  then show ?thesis
    by (simp add: object_assign_empty_def removeEmptyProps_def)
qed

text \<open>
  Claim C10. \<^verbatim>\<open>createNewIssue\<close> leaves its argument as it was, whether the creation
  succeeds or throws: the object at \<open>options\<close>, like every object that existed before the
  call, has the same properties afterwards, empty and \<^verbatim>\<open>undefined\<close> ones included. What
  is stripped is the copy, a new object.
\<close>

theorem createNewIssue_keeps_options:
  assumes "options < next_ref s"
  shows "heap (snd (createNewIssue w options s)) options = heap s options
       \<and> (\<forall>r<next_ref s. heap (snd (createNewIssue w options s)) r = heap s r)
       \<and> heap (snd (createNewIssue w options s)) (next_ref s) = removeEmptyProps_obj (heap s options)"
  using assms by (simp add: createNewIssue_heap)


lemma obj_get_update:
  "obj_get (AList.update k v ob) k' = (if k' = k then v else obj_get ob k')"
  by (simp add: obj_get_def update_conv')

named_theorems keeps_intros

lemma keeps_flags_untouched: "heap_untouched m \<Longrightarrow> keeps_flags r m"
  by (simp add: keeps_flags_def heap_untouched_def)

lemma keeps_flags_returnM [keeps_intros]: "keeps_flags r (returnM x)"
  by (intro keeps_flags_untouched untouched_intros)

lemma keeps_flags_liftM [keeps_intros]: "keeps_flags r (liftM x)"
  by (intro keeps_flags_untouched untouched_intros)

lemma keeps_flags_read_prop [keeps_intros]: "keeps_flags r (read_prop r' k)"
  by (intro keeps_flags_untouched untouched_intros)

lemma keeps_flags_request [keeps_intros]: "keeps_flags r (request w c)"
  by (intro keeps_flags_untouched untouched_intros)

lemma keeps_flags_addIssueToProjectColumn [keeps_intros]:
  "keeps_flags r (addIssueToProjectColumn w i p c)"
  by (intro keeps_flags_untouched untouched_intros)

lemma keeps_flags_addIssueToMilestone [keeps_intros]:
  "keeps_flags r (addIssueToMilestone w n m)"
  by (intro keeps_flags_untouched untouched_intros)

lemma keeps_flags_makeLinkedComments [keeps_intros]:
  "keeps_flags r (makeLinkedComments w a b)"
  by (intro keeps_flags_untouched untouched_intros)

lemma keeps_flags_write_assignees [keeps_intros]:
  "keeps_flags r (write_prop r' ''assignees'' v)"
  by (simp add: keeps_flags_def write_prop_def obj_get_update)

lemma keeps_flags_write_body [keeps_intros]:
  "keeps_flags r (write_prop r' ''body'' v)"
  by (simp add: keeps_flags_def write_prop_def obj_get_update)

lemma keeps_flags_createNewIssue [keeps_intros]: "keeps_flags r (createNewIssue w options)"
  by (simp add: keeps_flags_def createNewIssue_heap)

lemma keeps_flags_bindM [keeps_intros]:
  assumes "keeps_flags r m" and "\<And>x. keeps_flags r (f x)"
  shows "keeps_flags r (bindM m f)"
  unfolding keeps_flags_def
proof (intro allI impI)
  fix s :: bot assume r: "r < next_ref s"
  from assms(1) r have m: "next_ref s \<le> next_ref (snd (m s))"
    "\<forall>k. k \<noteq> ''assignees'' \<and> k \<noteq> ''body'' \<longrightarrow>
        obj_get (heap (snd (m s)) r) k = obj_get (heap s r) k"
    by (simp_all add: keeps_flags_def)
  show "next_ref s \<le> next_ref (snd (bindM m f s)) \<and>
        (\<forall>k. k \<noteq> ''assignees'' \<and> k \<noteq> ''body'' \<longrightarrow>
             obj_get (heap (snd (bindM m f s)) r) k = obj_get (heap s r) k)"
  proof (cases "fst (m s)")
    case (Inl e)
    from bindM_Inl [of m s e f, OF this] m show ?thesis by simp
  next
    case (Inr x)
    from r m(1) have "r < next_ref (snd (m s))" by simp
    with assms(2) [of x] have
      "next_ref (snd (m s)) \<le> next_ref (snd (f x (snd (m s))))"
      "\<forall>k. k \<noteq> ''assignees'' \<and> k \<noteq> ''body'' \<longrightarrow>
        obj_get (heap (snd (f x (snd (m s)))) r) k = obj_get (heap (snd (m s)) r) k"
      by (simp_all add: keeps_flags_def)
    with bindM_Inr [of m s x f, OF Inr] m show ?thesis by simp
  qed
qed

lemma keeps_flags_if [keeps_intros]:
  "(c \<Longrightarrow> keeps_flags r a) \<Longrightarrow> (\<not> c \<Longrightarrow> keeps_flags r b) \<Longrightarrow>
   keeps_flags r (if c then a else b)"
  by simp

lemma keeps_flags_run_rotate [keeps_intros]: "keeps_flags r (run_rotate i p)"
  unfolding run_rotate_def by (intro keeps_intros)

lemma keeps_flags_run_create: "keeps_flags r (run_create w i p)"
  unfolding run_create_def by (intro keeps_intros)

lemma keeps_flags_run_lookup: "keeps_flags r (run_lookup w i)"
  by (intro keeps_flags_untouched untouched_run_lookup)

lemmas close_previous_defs = run_close_previous_def closeIssue_def unpin_def isPinned_def
  pin_def bindM_def read_prop_def request_def liftM_def returnM_def Let_def

lemma run_close_previous_events:
  assumes run: "run_close_previous w i p n s2 = (Inr u, s3)"
      and ex: "issueExists (previousIssueNumber p)"
      and cl: "truthy (obj_get (heap s2 i) ''closePrevious'')"
      and pi: "truthy (obj_get (heap s2 i) ''pinned'')"
  shows "\<exists>closed data unpinned pinned.
      events s3 = events s2 @
        [(IssuesUpdateClosed (previousIssueNumber p), Inr closed), (GraphqlPinnedIssues, Inr data)]
        @ (if isPinned_of data (previousIssueNodeId p) = Inr True
           then [(GraphqlUnpinIssue (to_string (previousIssueNodeId p)), Inr unpinned)] else [])
        @ [(GraphqlPinIssue (to_string (newIssueNodeId n)), Inr pinned)]"
proof -
  let ?close = "IssuesUpdateClosed (previousIssueNumber p)"
  let ?unpin = "GraphqlUnpinIssue (to_string (previousIssueNodeId p))"
  let ?pin = "GraphqlPinIssue (to_string (newIssueNodeId n))"
  obtain closed where c: "w (events s2) ?close = Inr closed"
    using run ex cl pi by (cases "w (events s2) ?close") (simp_all add: close_previous_defs)
  let ?h1 = "events s2 @ [(?close, Inr closed)]"
  obtain data where d: "w ?h1 GraphqlPinnedIssues = Inr data"
    using run ex cl pi c
    by (cases "w ?h1 GraphqlPinnedIssues") (simp_all add: close_previous_defs)
  let ?h2 = "?h1 @ [(GraphqlPinnedIssues, Inr data)]"
  obtain b where b: "isPinned_of data (previousIssueNodeId p) = Inr b"
    using run ex cl pi c d
    by (cases "isPinned_of data (previousIssueNodeId p)") (simp_all add: close_previous_defs)
  show ?thesis
  proof (cases b)
    case True
    obtain unpinned where un: "w ?h2 ?unpin = Inr unpinned"
      using run ex cl pi c d b True
      by (cases "w ?h2 ?unpin") (simp_all add: close_previous_defs)
    let ?h3 = "?h2 @ [(?unpin, Inr unpinned)]"
    obtain pinned where pn: "w ?h3 ?pin = Inr pinned"
      using run ex cl pi c d b True un
      by (cases "w ?h3 ?pin") (simp_all add: close_previous_defs)
    have "events s3 = ?h3 @ [(?pin, Inr pinned)]"
      using run ex cl pi c d b True un pn by (auto simp: close_previous_defs)
    with b True show ?thesis by auto
  next
    case False
    obtain pinned where pn: "w ?h2 ?pin = Inr pinned"
      using run ex cl pi c d b False
      by (cases "w ?h2 ?pin") (simp_all add: close_previous_defs)
    have "events s3 = ?h2 @ [(?pin, Inr pinned)]"
      using run ex cl pi c d b False pn by (auto simp: close_previous_defs)
    with b False show ?thesis by auto
  qed
qed

subsection \<open>Closing the previous issue and moving the pin\<close>

lemma not_close_or_pin_lookup: "\<not> is_close_or_pin (IssuesListForRepo l)"
  by simp

lemma added_append: "events s' = events s @ new \<Longrightarrow> added s s' = new"
  by (simp add: added_def)

lemma keeps_flagsD:
  assumes "keeps_flags r m" and "r < next_ref s"
  shows "r < next_ref (snd (m s))"
    and "k \<noteq> ''assignees'' \<Longrightarrow> k \<noteq> ''body'' \<Longrightarrow>
         obj_get (heap (snd (m s)) r) k = obj_get (heap s r) k"
  using assms unfolding keeps_flags_def by (force, blast)

text \<open>
  Claim C6, amended. Take a run whose lookup found a previous issue, whose inputs have
  \<^verbatim>\<open>closePrevious\<close> and \<^verbatim>\<open>pinned\<close> set, and in which no step throws: the lookup, lines
  290 to 310 and lines 312 to 321 all complete. After the events of lines 284 to 310, none
  of which closes, pins, unpins or asks for the pinned issues, the run sends exactly: the
  closing of the previous issue by its number, the pinned-issues query of \<^verbatim>\<open>unpin\<close>, the
  unpin mutation for the previous issue's node id if and only if that query lists it, and
  the pin mutation for the new issue's node id, in this order.
\<close>

theorem run_closes_unpins_pins:
  assumes look: "run_lookup w inputs s = (Inr previous, s1)"
      and create: "run_create w inputs previous s1 = (Inr new, s2)"
      and close: "run_close_previous w inputs previous new s2 = (Inr u, s3)"
      and allocated: "inputs < next_ref s"
      and ex: "issueExists (previousIssueNumber previous)"
      and cl: "truthy (obj_get (heap s inputs) ''closePrevious'')"
      and pi: "truthy (obj_get (heap s inputs) ''pinned'')"
  shows "\<exists>closed data unpinned pinned.
      added s (snd (run w inputs s)) = added s s2 @
        [(IssuesUpdateClosed (previousIssueNumber previous), Inr closed),
         (GraphqlPinnedIssues, Inr data)]
        @ (if isPinned_of data (previousIssueNodeId previous) = Inr True
           then [(GraphqlUnpinIssue (to_string (previousIssueNodeId previous)), Inr unpinned)]
           else [])
        @ [(GraphqlPinIssue (to_string (newIssueNodeId new)), Inr pinned)]
      \<and> list_all (\<lambda>ev. \<not> is_close_or_pin (fst ev)) (added s s2)"
proof -
  have steps: "run_steps w inputs s = (Inr new, s3)"
    using look create close by (simp add: run_steps_def bindM_def returnM_def)
  have s1: "snd (run_lookup w inputs s) = s1" and s2: "snd (run_create w inputs previous s1) = s2"
    using look create by simp_all
  note k1 = keeps_flagsD [OF keeps_flags_run_lookup [of inputs w inputs] allocated, unfolded s1]
  note k2 = keeps_flagsD [OF keeps_flags_run_create [of inputs w inputs previous] k1(1),
      unfolded s2]
  have cl2: "truthy (obj_get (heap s2 inputs) ''closePrevious'')"
    using cl k1(2) [of "''closePrevious''"] k2(2) [of "''closePrevious''"] by simp
  have pi2: "truthy (obj_get (heap s2 inputs) ''pinned'')"
    using pi k1(2) [of "''pinned''"] k2(2) [of "''pinned''"] by simp
  have ol: "orderly w (\<lambda>c. \<not> is_close_or_pin c) (run_lookup w inputs)"
    by (rule orderly_run_lookup) simp
  have oc: "orderly w (\<lambda>c. \<not> is_close_or_pin c) (run_create w inputs previous)"
    by (rule orderly_run_create) simp
  note o1 = orderly_events(1,2) [OF ol, where s = s, unfolded s1]
  note o2 = orderly_events(1,2) [OF oc, where s = s1, unfolded s2]
  have e2: "events s2 = events s @ (added s s1 @ added s1 s2)"
    using o1(1) o2(1) by (metis append.assoc)
  then have a2: "added s s2 = added s s1 @ added s1 s2"
    by (rule added_append)
  from run_close_previous_events [OF close ex cl2 pi2] obtain closed data unpinned pinned where
    e3: "events s3 = events s2 @
        [(IssuesUpdateClosed (previousIssueNumber previous), Inr closed),
         (GraphqlPinnedIssues, Inr data)]
        @ (if isPinned_of data (previousIssueNodeId previous) = Inr True
           then [(GraphqlUnpinIssue (to_string (previousIssueNodeId previous)), Inr unpinned)]
           else [])
        @ [(GraphqlPinIssue (to_string (newIssueNodeId new)), Inr pinned)]"
    by blast
  have "events s2 = events s @ added s s2"
    using e2 a2 by simp
  with e3 have "events s3 = events s @ (added s s2 @
        [(IssuesUpdateClosed (previousIssueNumber previous), Inr closed),
         (GraphqlPinnedIssues, Inr data)]
        @ (if isPinned_of data (previousIssueNodeId previous) = Inr True
           then [(GraphqlUnpinIssue (to_string (previousIssueNodeId previous)), Inr unpinned)]
           else [])
        @ [(GraphqlPinIssue (to_string (newIssueNodeId new)), Inr pinned)])"
    by (metis append.assoc)
  then have "added s s3 = added s s2 @
        [(IssuesUpdateClosed (previousIssueNumber previous), Inr closed),
         (GraphqlPinnedIssues, Inr data)]
        @ (if isPinned_of data (previousIssueNodeId previous) = Inr True
           then [(GraphqlUnpinIssue (to_string (previousIssueNodeId previous)), Inr unpinned)]
           else [])
        @ [(GraphqlPinIssue (to_string (newIssueNodeId new)), Inr pinned)]"
    by (rule added_append)
  moreover have "added s (snd (run w inputs s)) = added s s3"
    using steps by (simp add: run_added)
  moreover have "list_all (\<lambda>ev. \<not> is_close_or_pin (fst ev)) (added s s2)"
    using a2 o1(2) o2(2) by simp
  ultimately show ?thesis
    by (intro exI [of _ closed] exI [of _ data] exI [of _ unpinned] exI [of _ pinned]) simp
qed

section \<open>Sample runs\<close>

text \<open>The theorems above at the sample inputs and worlds, evaluated.\<close>

subsection \<open>createNewIssue on the sample inputs\<close>

lemma sample_allocated: "0 < next_ref (start sample_inputs)"
  by (simp add: start_def)

theorem createNewIssue_keeps_options_witness:
  "0 < next_ref (start sample_inputs)
   \<and> heap (snd (createNewIssue sample_world 0 (start sample_inputs))) 0 = sample_inputs
   \<and> obj_get (heap (snd (createNewIssue sample_world 0 (start sample_inputs))) 0) ''milestone''
       = JStr ''''
   \<and> map fst (heap (snd (createNewIssue sample_world 0 (start sample_inputs))) 1) =
       [''title'', ''body'', ''labels'', ''assignees'', ''pinned'', ''closePrevious'',
        ''rotateAssignees'', ''linkedComments'']"
  using createNewIssue_keeps_options [OF sample_allocated, of sample_world]
  by (simp add: start_def sample_inputs_def obj_get_def removeEmptyProps_obj_def)

subsection \<open>A run whose closing request is refused\<close>

lemma refused_events:
  "added (start sample_inputs) (snd (run refusing_world 0 (start sample_inputs))) =
     [(IssuesListForRepo (JStr ''recurring''),
       Inr (JObj [(''data'', JArr [JObj [(''number'', JNum 10), (''node_id'', JStr ''N10''),
                 (''assignees'', JArr [JObj [(''login'', JStr ''alice'')]])]])])),
      (HandlebarsRender (JStr ''Hello'') (JNum 10) (JArr [JStr ''alice'', JStr ''bob'']),
       Inr (JStr ''Hello'')),
      (IssuesCreate (JStr ''Standup'') (JStr ''recurring'') (JArr [JStr ''alice'', JStr ''bob''])
         (JStr ''Hello''),
       Inr (JObj [(''data'', JObj [(''number'', JNum 20), (''id'', JNum 2000),
                 (''node_id'', JStr ''N20'')])])),
      (IssuesUpdateClosed (JNum 10), Inl (Thrown ''HttpError: Not Found''))]"
  by code_simp

lemma malformed_thrown:
  "fst (run_steps malformed_world 0 (start sample_inputs)) =
     Inl (TypeError ''Cannot read properties of undefined (reading number)'')"
  by code_simp

lemma malformed_calls:
  "map fst (added (start sample_inputs) (snd (run malformed_world 0 (start sample_inputs)))) =
     [IssuesListForRepo (JStr ''recurring''),
      HandlebarsRender (JStr ''Hello'') (JNum 10) (JArr [JStr ''alice'', JStr ''bob'']),
      IssuesCreate (JStr ''Standup'') (JStr ''recurring'') (JArr [JStr ''alice'', JStr ''bob''])
        (JStr ''Hello'')]"
  by code_simp

lemma rotating_thrown:
  "fst (run_steps sample_world 0 (start rotating_inputs)) =
     Inl (TypeError ''Cannot read properties of undefined (reading indexOf)'')"
  by code_simp

lemma rotating_calls:
  "map fst (added (start rotating_inputs) (snd (run sample_world 0 (start rotating_inputs)))) =
     [IssuesListForRepo (JStr ''recurring'')]"
  by code_simp

text \<open>
  Three runs that end with an exception: the tracker refuses the closing request; the
  tracker answers the creation with an object that has no \<^verbatim>\<open>data\<close>, so that reading the
  new issue's number raises a \<^verbatim>\<open>TypeError\<close>, and nothing is sent after the creation; and
  the rotation is asked for with no assignees, so that \<^verbatim>\<open>getNextAssignee\<close> raises right
  after the lookup, and neither the rendering nor the creation is sent.
\<close>

theorem run_stops_at_exception_witness:
  "length (added (start sample_inputs) (snd (run refusing_world 0 (start sample_inputs)))) = 4
   \<and> added (start sample_inputs) (snd (run refusing_world 0 (start sample_inputs))) ! 3
       = (IssuesUpdateClosed (JNum 10), Inl (Thrown ''HttpError: Not Found''))
   \<and> fst (run refusing_world 0 (start sample_inputs)) = Inr ()
   \<and> host_failure (snd (run refusing_world 0 (start sample_inputs)))
       = Some ''Error encountered: HttpError: Not Found.''
   \<and> host_output (snd (run refusing_world 0 (start sample_inputs))) = None
   \<and> map fst (added (start sample_inputs) (snd (run malformed_world 0 (start sample_inputs)))) =
       [IssuesListForRepo (JStr ''recurring''),
        HandlebarsRender (JStr ''Hello'') (JNum 10) (JArr [JStr ''alice'', JStr ''bob'']),
        IssuesCreate (JStr ''Standup'') (JStr ''recurring'') (JArr [JStr ''alice'', JStr ''bob''])
          (JStr ''Hello'')]
   \<and> host_failure (snd (run malformed_world 0 (start sample_inputs)))
       = Some ''Error encountered: TypeError: Cannot read properties of undefined (reading number).''
   \<and> (\<exists>before thrower.
         noted (start sample_inputs) (snd (run malformed_world 0 (start sample_inputs))) =
           before @ [thrower, FailureSet
             ''Error encountered: TypeError: Cannot read properties of undefined (reading number).'']
         \<and> raises thrower = Some (TypeError ''Cannot read properties of undefined (reading number)''))
   \<and> map fst (added (start rotating_inputs) (snd (run sample_world 0 (start rotating_inputs)))) =
       [IssuesListForRepo (JStr ''recurring'')]
   \<and> host_failure (snd (run sample_world 0 (start rotating_inputs)))
       = Some ''Error encountered: TypeError: Cannot read properties of undefined (reading indexOf).''"
proof -
  let ?new = "added (start sample_inputs) (snd (run refusing_world 0 (start sample_inputs)))"
  note t = run_stops_at_exception [of refusing_world 0 "start sample_inputs", unfolded Let_def]
  have k: "3 < length ?new"
    unfolding refused_events by simp
  have e: "snd (?new ! 3) = Inl (Thrown ''HttpError: Not Found'')"
    unfolding refused_events by simp
  note last = t [THEN conjunct2, THEN conjunct2, THEN conjunct2, THEN conjunct1,
      rule_format, OF k e]
  have l: "length ?new = 4" and n: "?new ! 3 = (IssuesUpdateClosed (JNum 10), Inl (Thrown ''HttpError: Not Found''))"
    unfolding refused_events by simp_all
  have o: "host_output (start sample_inputs) = None"
    by (simp add: start_def)
  have refused: "length ?new = 4
     \<and> ?new ! 3 = (IssuesUpdateClosed (JNum 10), Inl (Thrown ''HttpError: Not Found''))
     \<and> fst (run refusing_world 0 (start sample_inputs)) = Inr ()
     \<and> host_failure (snd (run refusing_world 0 (start sample_inputs)))
         = Some ''Error encountered: HttpError: Not Found.''
     \<and> host_output (snd (run refusing_world 0 (start sample_inputs))) = None"
    using t [THEN conjunct1] last l n o by simp
  note m = run_stops_at_exception [of malformed_world 0 "start sample_inputs", unfolded Let_def]
  note m_failure = m [THEN conjunct2, THEN conjunct2, THEN conjunct2, THEN conjunct2,
      THEN conjunct1, rule_format, OF malformed_thrown]
  note m_journal = m [THEN conjunct2, THEN conjunct2, THEN conjunct2, THEN conjunct2,
      THEN conjunct2, THEN conjunct2, THEN conjunct2, THEN conjunct2, THEN conjunct2,
      THEN conjunct1, rule_format, OF malformed_thrown]
  have malformed_failure: "host_failure (snd (run malformed_world 0 (start sample_inputs)))
       = Some ''Error encountered: TypeError: Cannot read properties of undefined (reading number).''"
    using m_failure by simp
  have malformed_journal: "\<exists>before thrower.
         noted (start sample_inputs) (snd (run malformed_world 0 (start sample_inputs))) =
           before @ [thrower, FailureSet
             ''Error encountered: TypeError: Cannot read properties of undefined (reading number).'']
         \<and> raises thrower = Some (TypeError ''Cannot read properties of undefined (reading number)'')"
    using m_journal by simp blast
  note r = run_stops_at_exception [of sample_world 0 "start rotating_inputs", unfolded Let_def]
  note r_failure = r [THEN conjunct2, THEN conjunct2, THEN conjunct2, THEN conjunct2,
      THEN conjunct1, rule_format, OF rotating_thrown]
  have rotating_failure: "host_failure (snd (run sample_world 0 (start rotating_inputs)))
       = Some ''Error encountered: TypeError: Cannot read properties of undefined (reading indexOf).''"
    using r_failure by simp
  show ?thesis
    using refused malformed_calls malformed_failure malformed_journal rotating_calls
      rotating_failure
    by (intro conjI) (elim conjE, assumption)+
qed

lemma refused_lookup:
  "fst (run_lookup refusing_world 0 (start sample_inputs)) =
     Inr \<lparr>previousIssueNumber = JNum 10, previousIssueNodeId = JStr ''N10'',
          previousAssignees = JArr [JObj [(''login'', JStr ''alice'')]]\<rparr>"
  by code_simp

text \<open>
  Claim C6 as stated, for every run: on the sample inputs the lookup finds issue 10 and
  \<^verbatim>\<open>closePrevious\<close> and \<^verbatim>\<open>pinned\<close> are set, but the tracker refuses to close the issue;
  the run ends with the closing request and sends neither the unpin nor the pin.
\<close>

theorem run_refused_close_no_pin:
  "fst (run_lookup refusing_world 0 (start sample_inputs)) =
     Inr \<lparr>previousIssueNumber = JNum 10, previousIssueNodeId = JStr ''N10'',
          previousAssignees = JArr [JObj [(''login'', JStr ''alice'')]]\<rparr>
   \<and> issueExists (JNum 10)
   \<and> truthy (obj_get (heap (start sample_inputs) 0) ''closePrevious'')
   \<and> truthy (obj_get (heap (start sample_inputs) 0) ''pinned'')
   \<and> map fst (added (start sample_inputs) (snd (run refusing_world 0 (start sample_inputs)))) =
       [IssuesListForRepo (JStr ''recurring''),
        HandlebarsRender (JStr ''Hello'') (JNum 10) (JArr [JStr ''alice'', JStr ''bob'']),
        IssuesCreate (JStr ''Standup'') (JStr ''recurring'') (JArr [JStr ''alice'', JStr ''bob''])
          (JStr ''Hello''),
        IssuesUpdateClosed (JNum 10)]"
proof -
  have "issueExists (JNum 10)"
    by (simp add: issueExists_def js_ge_num_def)
  moreover have "truthy (obj_get (heap (start sample_inputs) 0) ''closePrevious'')"
    and "truthy (obj_get (heap (start sample_inputs) 0) ''pinned'')"
    by (simp_all add: start_def sample_inputs_def obj_get_def)
  ultimately show ?thesis
    by (simp add: refused_lookup refused_events)
qed

subsection \<open>Runs with and without the lookup\<close>

lemma plain_flags:
  "obj_get (heap (start plain_inputs) 0) ''pinned'' = JBool False"
  "obj_get (heap (start plain_inputs) 0) ''closePrevious'' = JBool False"
  "obj_get (heap (start plain_inputs) 0) ''rotateAssignees'' = JBool False"
  "obj_get (heap (start plain_inputs) 0) ''linkedComments'' = JBool False"
  by (simp_all add: start_def plain_inputs_def obj_get_def)

lemma sample_flags:
  "obj_get (heap (start sample_inputs) 0) ''pinned'' = JBool True"
  "obj_get (heap (start sample_inputs) 0) ''closePrevious'' = JBool True"
  "obj_get (heap (start sample_inputs) 0) ''labels'' = JStr ''recurring''"
  by (simp_all add: start_def sample_inputs_def obj_get_def)

theorem run_lookup_iff_flag_witness:
  "\<not> list_ex (\<lambda>ev. is_lookup (fst ev))
        (added (start plain_inputs) (snd (run sample_world 0 (start plain_inputs))))
   \<and> list_ex (\<lambda>ev. is_lookup (fst ev))
        (added (start sample_inputs) (snd (run sample_world 0 (start sample_inputs))))
   \<and> fst (hd (added (start sample_inputs) (snd (run sample_world 0 (start sample_inputs)))))
       = IssuesListForRepo (JStr ''recurring'')"
  using run_lookup_iff_flag [of "start plain_inputs" sample_world 0]
    run_lookup_iff_flag [of "start sample_inputs" sample_world 0]
  by (simp add: Let_def plain_flags sample_flags list_ex_iff)

lemma loose_flags:
  "obj_get (heap (start loose_inputs) 0) ''pinned'' = JStr ''true''"
  "obj_get (heap (start loose_inputs) 0) ''closePrevious'' = JNum 1"
  "obj_get (heap (start loose_inputs) 0) ''rotateAssignees'' = JBool False"
  "obj_get (heap (start loose_inputs) 0) ''linkedComments'' = JBool False"
  by (simp_all add: start_def loose_inputs_def obj_get_def)

theorem needPreviousIssue_strict_witness:
  "truthy (obj_get (heap (start loose_inputs) 0) ''pinned'')
   \<and> truthy (obj_get (heap (start loose_inputs) 0) ''closePrevious'')
   \<and> list_all (\<lambda>ev. \<not> is_lookup (fst ev))
        (added (start loose_inputs) (snd (run sample_world 0 (start loose_inputs))))
   \<and> needPreviousIssue [JBool False, JBool True]
   \<and> \<not> needPreviousIssue [JStr ''true'', JNum 1]"
  using needPreviousIssue_strict [of "[JBool False, JBool True]" "start loose_inputs" 0 sample_world]
    needPreviousIssue_strict [of "[JStr ''true'', JNum 1]" "start loose_inputs" 0 sample_world]
  by (simp add: loose_flags)

subsection \<open>A run that closes the previous issue and moves the pin\<close>

lemma sample_lookup:
  "fst (run_lookup sample_world 0 (start sample_inputs)) =
     Inr \<lparr>previousIssueNumber = JNum 10, previousIssueNodeId = JStr ''N10'',
          previousAssignees = JArr [JObj [(''login'', JStr ''alice'')]]\<rparr>"
  by code_simp

lemma sample_create:
  "fst (run_create sample_world 0
          \<lparr>previousIssueNumber = JNum 10, previousIssueNodeId = JStr ''N10'',
           previousAssignees = JArr [JObj [(''login'', JStr ''alice'')]]\<rparr>
          (snd (run_lookup sample_world 0 (start sample_inputs)))) =
     Inr \<lparr>newIssueNumber = JNum 20, newIssueId = JNum 2000, newIssueNodeId = JStr ''N20''\<rparr>"
  by code_simp

lemma sample_close:
  "fst (run_close_previous sample_world 0
          \<lparr>previousIssueNumber = JNum 10, previousIssueNodeId = JStr ''N10'',
           previousAssignees = JArr [JObj [(''login'', JStr ''alice'')]]\<rparr>
          \<lparr>newIssueNumber = JNum 20, newIssueId = JNum 2000, newIssueNodeId = JStr ''N20''\<rparr>
          (snd (run_create sample_world 0
             \<lparr>previousIssueNumber = JNum 10, previousIssueNodeId = JStr ''N10'',
              previousAssignees = JArr [JObj [(''login'', JStr ''alice'')]]\<rparr>
             (snd (run_lookup sample_world 0 (start sample_inputs)))))) = Inr ()"
  by code_simp

lemma sample_calls:
  "map fst (added (start sample_inputs) (snd (run sample_world 0 (start sample_inputs)))) =
     [IssuesListForRepo (JStr ''recurring''),
      HandlebarsRender (JStr ''Hello'') (JNum 10) (JArr [JStr ''alice'', JStr ''bob'']),
      IssuesCreate (JStr ''Standup'') (JStr ''recurring'') (JArr [JStr ''alice'', JStr ''bob''])
        (JStr ''Hello''),
      IssuesUpdateClosed (JNum 10), GraphqlPinnedIssues, GraphqlUnpinIssue ''N10'',
      GraphqlPinIssue ''N20'']"
  by code_simp

theorem run_closes_unpins_pins_witness:
  "issueExists (JNum 10)
   \<and> truthy (obj_get (heap (start sample_inputs) 0) ''closePrevious'')
   \<and> truthy (obj_get (heap (start sample_inputs) 0) ''pinned'')
   \<and> (\<exists>before closed data unpinned pinned.
        added (start sample_inputs) (snd (run sample_world 0 (start sample_inputs))) =
          before @
          [(IssuesUpdateClosed (JNum 10), Inr closed), (GraphqlPinnedIssues, Inr data)]
          @ (if isPinned_of data (JStr ''N10'') = Inr True
             then [(GraphqlUnpinIssue ''N10'', Inr unpinned)] else [])
          @ [(GraphqlPinIssue ''N20'', Inr pinned)]
        \<and> list_all (\<lambda>ev. \<not> is_close_or_pin (fst ev)) before)
   \<and> map fst (added (start sample_inputs) (snd (run sample_world 0 (start sample_inputs)))) =
     [IssuesListForRepo (JStr ''recurring''),
      HandlebarsRender (JStr ''Hello'') (JNum 10) (JArr [JStr ''alice'', JStr ''bob'']),
      IssuesCreate (JStr ''Standup'') (JStr ''recurring'') (JArr [JStr ''alice'', JStr ''bob''])
        (JStr ''Hello''),
      IssuesUpdateClosed (JNum 10), GraphqlPinnedIssues, GraphqlUnpinIssue ''N10'',
      GraphqlPinIssue ''N20'']"
proof -
  let ?p = "\<lparr>previousIssueNumber = JNum 10, previousIssueNodeId = JStr ''N10'',
           previousAssignees = JArr [JObj [(''login'', JStr ''alice'')]]\<rparr>"
  let ?n = "\<lparr>newIssueNumber = JNum 20, newIssueId = JNum 2000, newIssueNodeId = JStr ''N20''\<rparr>"
  let ?s1 = "snd (run_lookup sample_world 0 (start sample_inputs))"
  let ?s2 = "snd (run_create sample_world 0 ?p ?s1)"
  let ?s3 = "snd (run_close_previous sample_world 0 ?p ?n ?s2)"
  have look: "run_lookup sample_world 0 (start sample_inputs) = (Inr ?p, ?s1)"
    using sample_lookup by (simp add: prod_eq_iff)
  have create: "run_create sample_world 0 ?p ?s1 = (Inr ?n, ?s2)"
    using sample_create by (simp add: prod_eq_iff)
  have close: "run_close_previous sample_world 0 ?p ?n ?s2 = (Inr (), ?s3)"
    using sample_close by (simp add: prod_eq_iff)
  have allocated: "0 < next_ref (start sample_inputs)"
    by (simp add: start_def)
  have ex: "issueExists (previousIssueNumber ?p)"
    by (simp add: issueExists_def js_ge_num_def)
  have cl: "truthy (obj_get (heap (start sample_inputs) 0) ''closePrevious'')"
    and pi: "truthy (obj_get (heap (start sample_inputs) 0) ''pinned'')"
    by (simp_all add: start_def sample_inputs_def obj_get_def)
  from run_closes_unpins_pins [OF look create close allocated ex cl pi]
  obtain closed data unpinned pinned where
    eq: "added (start sample_inputs) (snd (run sample_world 0 (start sample_inputs))) =
          added (start sample_inputs) ?s2 @
          [(IssuesUpdateClosed (previousIssueNumber ?p), Inr closed),
           (GraphqlPinnedIssues, Inr data)]
          @ (if isPinned_of data (previousIssueNodeId ?p) = Inr True
             then [(GraphqlUnpinIssue (to_string (previousIssueNodeId ?p)), Inr unpinned)]
             else [])
          @ [(GraphqlPinIssue (to_string (newIssueNodeId ?n)), Inr pinned)]"
    and la: "list_all (\<lambda>ev. \<not> is_close_or_pin (fst ev)) (added (start sample_inputs) ?s2)"
    by blast
  have "\<exists>before closed data unpinned pinned.
        added (start sample_inputs) (snd (run sample_world 0 (start sample_inputs))) =
          before @
          [(IssuesUpdateClosed (JNum 10), Inr closed), (GraphqlPinnedIssues, Inr data)]
          @ (if isPinned_of data (JStr ''N10'') = Inr True
             then [(GraphqlUnpinIssue ''N10'', Inr unpinned)] else [])
          @ [(GraphqlPinIssue ''N20'', Inr pinned)]
        \<and> list_all (\<lambda>ev. \<not> is_close_or_pin (fst ev)) before"
    apply (rule exI [of _ "added (start sample_inputs) ?s2"])
    apply (rule exI [of _ closed])
    apply (rule exI [of _ data])
    apply (rule exI [of _ unpinned])
    apply (rule exI [of _ pinned])
    using eq la apply simp
    done
  with ex cl pi sample_calls show ?thesis by simp
qed

end
